theory Spec2Isabelle
  imports Complex_Main
begin

section \<open>The random number hook and the countdown hook of the demo application\<close>

text \<open>
  The repository holds two custom React hooks and the component that uses them:
  \<^item> \<^verbatim>\<open>hooks/random.ts\<close>: \<^verbatim>\<open>rand\<close> and \<^verbatim>\<open>useRandom\<close>, a number that is drawn again every
    10000 ms;
  \<^item> \<^verbatim>\<open>hooks/timer.ts\<close>: \<^verbatim>\<open>useTimer\<close>, a countdown that is decremented every 1000 ms and
    set back to 10 by an effect whose dependencies are \<^verbatim>\<open>[randomNumber, tick]\<close>;
  \<^item> \<^verbatim>\<open>App.tsx\<close>: \<^verbatim>\<open>App\<close>, which calls \<^verbatim>\<open>useRandom()\<close> and then \<^verbatim>\<open>useTimer(randomNumber)\<close>.

  The hooks are embedded by explicit state passing over a record \<open>world\<close> that holds the
  state cells of the hooks together with the part of the host the hooks talk to: the
  outcomes of \<^verbatim>\<open>Math.random()\<close>, the interval registry behind \<^verbatim>\<open>setInterval\<close> and
  \<^verbatim>\<open>clearInterval\<close>, and a clock in milliseconds.
\<close>

subsection \<open>\<^verbatim>\<open>rand\<close>\<close>

text \<open>
  \<^verbatim>\<open>const rand = () => Math.floor(Math.random() * 9000 + 1000);\<close>

  The source computes in binary64. The finite binary64 numbers are the \<open>m * 2 ^ e\<close> with
  \<open>\<bar>m\<bar> < 2 ^ 53\<close> and \<open>-1074 \<le> e \<le> 971\<close>; the product and the sum are each rounded to
  the nearest one of them, to the one with the even \<open>m\<close> when two are equally near, and
  \<^verbatim>\<open>Math.floor\<close> is exact.

  \<open>binary64 x\<close> is that rounding for \<open>\<bar>x\<bar> < 2 ^ 53\<close>, which covers every number met here:
  \<open>frac_bits 1074 \<bar>x\<bar>\<close> is the number \<open>j\<close> of binary places of the binary64 numbers
  around \<open>x\<close> (the largest \<open>j \<le> 1074\<close> with \<open>\<bar>x\<bar> * 2 ^ j < 2 ^ 53\<close>), and \<open>x\<close> is rounded to
  a multiple of \<open>1 / 2 ^ j\<close>. The outcome \<open>r\<close> of \<^verbatim>\<open>Math.random()\<close> is the argument of
  \<open>rand\<close>, and the result is an integer.
\<close>

definition round_even :: "real \<Rightarrow> int" where
  "round_even y =
     (let f = \<lfloor>y\<rfloor>; d = y - of_int f
      in if d < 1 / 2 then f else if 1 / 2 < d then f + 1 else if even f then f else f + 1)"

fun frac_bits :: "nat \<Rightarrow> real \<Rightarrow> nat" where
  "frac_bits 0 a = 0"
| "frac_bits (Suc j) a = (if a * 2 ^ Suc j < 2 ^ 53 then Suc j else frac_bits j a)"

definition binary64 :: "real \<Rightarrow> real" where
  "binary64 x = (let j = frac_bits 1074 \<bar>x\<bar> in of_int (round_even (x * 2 ^ j)) / 2 ^ j)"

definition rand :: "real \<Rightarrow> int" where
  "rand r = \<lfloor>binary64 (binary64 (r * 9000) + 1000)\<rfloor>"

text \<open>
  The rounding as a relation, with either of two equally near numbers allowed:
  \<open>rand_binary64 r v\<close> says that \<open>v\<close> is a result of the source's expression when
  \<^verbatim>\<open>Math.random()\<close> returns \<open>r\<close>. \<open>rand r\<close> is such a result (\<open>rand_is_binary64\<close>).
\<close>

definition representable :: "real \<Rightarrow> bool" where
  "representable x \<longleftrightarrow>
     (\<exists>m n. \<bar>m\<bar> < 2 ^ 53 \<and>
        (n \<le> 1074 \<and> x = real_of_int m / 2 ^ n \<or> n \<le> 971 \<and> x = real_of_int m * 2 ^ n))"

definition nearest :: "real \<Rightarrow> real \<Rightarrow> bool" where
  "nearest x y \<longleftrightarrow> representable y \<and> (\<forall>z. representable z \<longrightarrow> \<bar>x - y\<bar> \<le> \<bar>x - z\<bar>)"

definition rand_binary64 :: "real \<Rightarrow> int \<Rightarrow> bool" where
  "rand_binary64 r v \<longleftrightarrow> (\<exists>p q. nearest (r * 9000) p \<and> nearest (p + 1000) q \<and> v = \<lfloor>q\<rfloor>)"

subsection \<open>The host: random outcomes, intervals, clock\<close>

text \<open>
  The two functions that the hooks hand to \<^verbatim>\<open>setInterval\<close>:
  \<^verbatim>\<open>() => storeNumber(rand())\<close> in \<^verbatim>\<open>useRandom\<close> and \<^verbatim>\<open>tick\<close> in \<^verbatim>\<open>useTimer\<close>.
\<close>

datatype callback = RandomCb | TickCb

record interval =
  iid :: nat
  cb :: callback
  delay :: nat
  due :: nat

record world =
  rng :: "nat \<Rightarrow> real"
  draws :: nat
  now :: nat
  timers :: "interval list"
  next_id :: nat
  fired :: "(nat \<times> callback) list"
  mounted :: bool
  needs_render :: bool
  dirty :: bool
  rendered :: "int \<times> int"
  number :: int
  random_interval :: "nat option"
  seconds :: int
  timer_deps :: "int option"
  timer_interval :: "nat option"

text \<open>
  \<^item> \<open>rng w i\<close> is the outcome of the \<open>i\<close>-th call of \<^verbatim>\<open>Math.random()\<close>, \<open>draws w\<close> the
    number of calls made so far;
  \<^item> \<open>timers w\<close> are the active intervals in the order of their creation, \<open>fired w\<close> the
    history of the interval callbacks that have run (time and callback, oldest first);
  \<^item> \<open>number w\<close> and \<open>seconds w\<close> are the \<^verbatim>\<open>useState\<close> cells of the two hooks; both only
    ever hold integers (a result of \<^verbatim>\<open>Math.floor\<close>; 10 and what subtracting 1 makes of
    it), taken without a bound;
  \<^item> \<open>random_interval w\<close> and \<open>timer_interval w\<close> are the handles \<^verbatim>\<open>interval\<close> captured by
    the cleanup functions that the two effects return;
  \<^item> \<open>timer_deps w\<close> is the \<^verbatim>\<open>randomNumber\<close> of the dependency array with which the effect
    of \<^verbatim>\<open>useTimer\<close> ran last (\<^verbatim>\<open>tick\<close> is memoised by \<^verbatim>\<open>useCallback\<close> with no
    dependencies, so it is the same function at every render);
  \<^item> \<open>rendered w\<close> is what the last call of \<^verbatim>\<open>App\<close> returned for display: the number and the
    countdown, the values of the two cells at that render;
  \<^item> \<open>needs_render w\<close> says that a setter has scheduled a render of \<^verbatim>\<open>App\<close>;
  \<^item> \<open>dirty w\<close> says that the last render of \<^verbatim>\<open>App\<close> found a cell changed. React then still
    has the component marked as possibly holding work (on the alternate of its fiber), and
    the mark goes away with the next render that finds nothing changed.
\<close>

definition rand_draw :: "world \<Rightarrow> int \<times> world" where
  "rand_draw w = (rand (rng w (draws w)), w\<lparr>draws := Suc (draws w)\<rparr>)"

definition setInterval :: "callback \<Rightarrow> nat \<Rightarrow> world \<Rightarrow> nat \<times> world" where
  "setInterval f ms w =
     (next_id w,
      w\<lparr>timers := timers w @ [\<lparr>iid = next_id w, cb = f, delay = ms, due = now w + ms\<rparr>],
        next_id := Suc (next_id w)\<rparr>)"

definition clearInterval :: "nat \<Rightarrow> world \<Rightarrow> world" where
  "clearInterval i w = w\<lparr>timers := filter (\<lambda>t. iid t \<noteq> i) (timers w)\<rparr>"

subsection \<open>State setters\<close>

text \<open>
  A setter of \<^verbatim>\<open>useState\<close> stores the value and schedules a render. It does nothing when
  it is given the value the cell already holds (compared with \<^verbatim>\<open>Object.is\<close>) and React knows
  the component to be without work: no render scheduled and the component not \<open>dirty\<close>.
  Given the held value while the component is \<open>dirty\<close>, it schedules a render that will
  find nothing changed. \<open>storeSeconds\<close> takes the updater form; \<^verbatim>\<open>storeSeconds(10)\<close> is
  \<open>storeSeconds (\<lambda>_. 10)\<close>.
\<close>

definition storeNumber :: "int \<Rightarrow> world \<Rightarrow> world" where
  "storeNumber v w =
     (if v = number w \<and> \<not> needs_render w \<and> \<not> dirty w then w
      else w\<lparr>needs_render := True, number := v\<rparr>)"

definition storeSeconds :: "(int \<Rightarrow> int) \<Rightarrow> world \<Rightarrow> world" where
  "storeSeconds f w =
     (let v = f (seconds w)
      in if v = seconds w \<and> \<not> needs_render w \<and> \<not> dirty w then w
         else w\<lparr>needs_render := True, seconds := v\<rparr>)"

subsection \<open>\<^verbatim>\<open>useRandom\<close>\<close>

text \<open>
  \<^verbatim>\<open>const [number, storeNumber] = useState(rand());\<close>
  The argument \<^verbatim>\<open>rand()\<close> is evaluated at every render and used at the first one only.
\<close>

definition useRandom :: "bool \<Rightarrow> world \<Rightarrow> int \<times> world" where
  "useRandom first w =
     (let (v, w1) = rand_draw w;
          w2 = (if first then w1\<lparr>number := v\<rparr> else w1)
      in (number w2, w2))"

definition useRandom_effect :: "world \<Rightarrow> world" where
  "useRandom_effect w =
     (let (interval, w1) = setInterval RandomCb 10000 w
      in w1\<lparr>random_interval := Some interval\<rparr>)"

definition useRandom_cleanup :: "world \<Rightarrow> world" where
  "useRandom_cleanup w =
     (case random_interval w of
        None \<Rightarrow> w
      | Some interval \<Rightarrow> (clearInterval interval w)\<lparr>random_interval := None\<rparr>)"

subsection \<open>\<^verbatim>\<open>useTimer\<close>\<close>

definition tick :: "world \<Rightarrow> world" where
  "tick w = storeSeconds (\<lambda>s. s - 1) w"

definition useTimer :: "bool \<Rightarrow> int \<Rightarrow> world \<Rightarrow> int \<times> world" where
  "useTimer first randomNumber w =
     (let w1 = (if first then w\<lparr>seconds := 10\<rparr> else w)
      in (seconds w1, w1))"

definition useTimer_effect :: "world \<Rightarrow> world" where
  "useTimer_effect w =
     (let w1 = storeSeconds (\<lambda>_. 10) w;
          (interval, w2) = setInterval TickCb 1000 w1
      in w2\<lparr>timer_interval := Some interval\<rparr>)"

definition useTimer_cleanup :: "world \<Rightarrow> world" where
  "useTimer_cleanup w =
     (case timer_interval w of
        None \<Rightarrow> w
      | Some interval \<Rightarrow> (clearInterval interval w)\<lparr>timer_interval := None\<rparr>)"

subsection \<open>\<^verbatim>\<open>App\<close>: one render and the effects it commits\<close>

text \<open>
  After the component function has returned, the effects are committed in the order of
  the hooks: the effect of \<^verbatim>\<open>useRandom\<close> (dependencies \<^verbatim>\<open>[]\<close>) at the first render only,
  the effect of \<^verbatim>\<open>useTimer\<close> (dependencies \<^verbatim>\<open>[randomNumber, tick]\<close>) at the first render
  and whenever \<^verbatim>\<open>randomNumber\<close> is not the one of the last run; the cleanup of the last run
  comes before the new run.
\<close>

definition commit :: "bool \<Rightarrow> int \<Rightarrow> world \<Rightarrow> world" where
  "commit first randomNumber w =
     (let w1 = (if first then useRandom_effect w else w)
      in if timer_deps w1 = Some randomNumber then w1
         else (useTimer_effect (useTimer_cleanup w1))\<lparr>timer_deps := Some randomNumber\<rparr>)"

definition App :: "bool \<Rightarrow> world \<Rightarrow> world" where
  "App first w =
     (let (randomNumber, w1) = useRandom first w;
          (timer, w2) = useTimer first randomNumber w1
      in commit first randomNumber (w2\<lparr>rendered := (randomNumber, timer)\<rparr>))"

text \<open>
  A scheduled render calls \<^verbatim>\<open>App\<close> again; it leaves the component \<open>dirty\<close> when it finds a
  cell that differs from what the last render returned. The render can commit an effect
  that schedules a render again. The loop ends after two rounds at most: once the effect
  of \<^verbatim>\<open>useTimer\<close> has run, its dependencies are those of the next render.
\<close>

definition flush_measure :: "world \<Rightarrow> nat" where
  "flush_measure w =
     (if needs_render w then (if timer_deps w = Some (number w) then 1 else 2) else 0)"

function flush :: "world \<Rightarrow> world" where
  "flush w =
     (if needs_render w
      then flush (App False
             (w\<lparr>needs_render := False, dirty := ((number w, seconds w) \<noteq> rendered w)\<rparr>))
      else w)"
  by pat_completeness auto
termination
  by (relation "measure flush_measure")
     (auto simp: flush_measure_def App_def useRandom_def useTimer_def commit_def rand_draw_def
        useTimer_effect_def useTimer_cleanup_def storeSeconds_def setInterval_def clearInterval_def
        Let_def split: option.splits)

declare flush.simps [simp del]

subsection \<open>Mounting, the clock, unmounting\<close>

text \<open>
  The component is mounted at time 0 with no interval set. The state cells come into
  being with the first render; until then \<open>initial\<close> holds placeholders for them.
\<close>

definition initial :: "(nat \<Rightarrow> real) \<Rightarrow> world" where
  "initial g =
     \<lparr>rng = g, draws = 0, now = 0, timers = [], next_id = 1, fired = [], mounted = False,
      needs_render = False, dirty = False, rendered = (0, 0), number = 0,
      random_interval = None, seconds = 0, timer_deps = None, timer_interval = None\<rparr>"

definition mount :: "(nat \<Rightarrow> real) \<Rightarrow> world" where
  "mount g = flush ((App True (initial g))\<lparr>mounted := True\<rparr>)"

definition run_callback :: "callback \<Rightarrow> world \<Rightarrow> world" where
  "run_callback f w =
     (case f of
        RandomCb \<Rightarrow> (let (v, w1) = rand_draw w in storeNumber v w1)
      | TickCb \<Rightarrow> tick w)"

text \<open>
  An interval that is due is scheduled again one period after the instant it was due at,
  its callback runs, and the renders that the callback asked for, with the effects they
  commit, follow before any other callback runs.
\<close>

definition fire :: "interval \<Rightarrow> world \<Rightarrow> world" where
  "fire t w =
     flush (run_callback (cb t)
       (w\<lparr>timers := map (\<lambda>u. if iid u = iid t then u\<lparr>due := due u + delay u\<rparr> else u) (timers w),
          fired := fired w @ [(now w, cb t)]\<rparr>))"

text \<open>
  The intervals due at an instant run in the order of their creation; one that an earlier
  callback of the same instant has cleared does not run.
\<close>

fun run_due :: "nat list \<Rightarrow> world \<Rightarrow> world" where
  "run_due [] w = w"
| "run_due (i # is) w =
     run_due is (case find (\<lambda>t. iid t = i) (timers w) of None \<Rightarrow> w | Some t \<Rightarrow> fire t w)"

text \<open>
  The clock moves in steps of one millisecond, the unit of the delays given to
  \<^verbatim>\<open>setInterval\<close>; \<open>advance ms\<close> lets \<open>ms\<close> milliseconds pass. Unmounting runs the cleanups
  of both effects. A run of the component is a list of events applied to the mounted
  component.
\<close>

definition step :: "world \<Rightarrow> world" where
  "step w =
     (let w1 = w\<lparr>now := Suc (now w)\<rparr>
      in run_due (map iid (filter (\<lambda>t. due t \<le> now w1) (timers w1))) w1)"

definition advance :: "nat \<Rightarrow> world \<Rightarrow> world" where
  "advance ms w = (step ^^ ms) w"

definition unmount :: "world \<Rightarrow> world" where
  "unmount w = (useTimer_cleanup (useRandom_cleanup w))\<lparr>mounted := False\<rparr>"

datatype event = Elapse nat | Unmount

fun apply_event :: "event \<Rightarrow> world \<Rightarrow> world" where
  "apply_event (Elapse ms) w = advance ms w"
| "apply_event Unmount w = unmount w"

definition run :: "event list \<Rightarrow> world \<Rightarrow> world" where
  "run evs w = fold apply_event evs w"

subsection \<open>Observations\<close>

text \<open>
  The instants at which the callback of \<^verbatim>\<open>useRandom\<close> ran (the value emissions) and those
  at which \<^verbatim>\<open>tick\<close> ran (the decrement events).
\<close>

definition emission_times :: "world \<Rightarrow> nat list" where
  "emission_times w = map fst (filter (\<lambda>e. snd e = RandomCb) (fired w))"

definition tick_times :: "world \<Rightarrow> nat list" where
  "tick_times w = map fst (filter (\<lambda>e. snd e = TickCb) (fired w))"

subsection \<open>Sample outcomes of \<^verbatim>\<open>Math.random()\<close>\<close>

definition same_draws :: "nat \<Rightarrow> real" where
  "same_draws i = 1 / 2"

definition late_change :: "nat \<Rightarrow> real" where
  "late_change i = (if i = 21 then 15 / 16 else 1 / 2)"

definition high_draws :: "nat \<Rightarrow> real" where
  "high_draws i = 15 / 16"

subsection \<open>The shape of a mounted world\<close>

text \<open>
  Used in the proofs only: a mounted world at rest has the interval of \<^verbatim>\<open>useRandom\<close>
  followed by the one of \<^verbatim>\<open>useTimer\<close> in its registry, each held by the cleanup of its
  effect, no render pending, the cells as the last render returned them, and the
  dependencies of the last effect run equal to the number held.
\<close>

definition mk :: "(nat \<Rightarrow> real) \<Rightarrow> nat \<Rightarrow> nat \<Rightarrow> nat \<Rightarrow> nat \<Rightarrow> nat \<Rightarrow> nat \<Rightarrow> nat \<Rightarrow>
    (nat \<times> callback) list \<Rightarrow> int \<Rightarrow> int \<Rightarrow> bool \<Rightarrow> world" where
  "mk g d t ir dr it dt nid fs v s b =
     \<lparr>rng = g, draws = d, now = t,
      timers = [\<lparr>iid = ir, cb = RandomCb, delay = 10000, due = dr\<rparr>,
                \<lparr>iid = it, cb = TickCb, delay = 1000, due = dt\<rparr>],
      next_id = nid, fired = fs, mounted = True, needs_render = False, dirty = b,
      rendered = (v, s), number = v, random_interval = Some ir, seconds = s,
      timer_deps = Some v, timer_interval = Some it\<rparr>"

definition on_schedule :: "(nat \<Rightarrow> real) \<Rightarrow> nat \<Rightarrow> world \<Rightarrow> bool" where
  "on_schedule g T w \<longleftrightarrow>
     (\<exists>d it nid fs v s b.
        w = mk g d T 1 (10000 * Suc (T div 10000)) it (1000 * Suc (T div 1000)) nid fs v s b
        \<and> 1 < it \<and> it < nid)"

definition alive :: "world \<Rightarrow> bool" where
  "alive w \<longleftrightarrow>
     (\<exists>g d t ir dr it dt nid fs v s b.
        w = mk g d t ir dr it dt nid fs v s b
        \<and> ir \<noteq> it \<and> ir < nid \<and> it < nid \<and> t < dr \<and> t < dt \<and> s \<le> 10
        \<and> sorted_wrt (\<lambda>a b. a + 1000 \<le> b) (tick_times w)
        \<and> (\<forall>x\<in>set (tick_times w). x \<le> t \<and> x + 1000 \<le> dt))"

definition dead :: "world \<Rightarrow> bool" where
  "dead w \<longleftrightarrow>
     timers w = [] \<and> random_interval w = None \<and> timer_interval w = None \<and> seconds w \<le> 10
     \<and> sorted_wrt (\<lambda>a b. a + 1000 \<le> b) (tick_times w)"

section \<open>The range of \<^verbatim>\<open>rand\<close>\<close>

text \<open>
  In the binade that starts at \<open>2 ^ 52 / 2 ^ j\<close>, and above it, the binary64 numbers are
  multiples of \<open>1 / 2 ^ j\<close>.
\<close>

lemma representable_int: "\<bar>m\<bar> < 2 ^ 53 \<Longrightarrow> representable (real_of_int m)"
  unfolding representable_def
  by (rule exI [of _ m], rule exI [of _ 0]) simp

lemma representable_frac: "\<bar>m\<bar> < 2 ^ 53 \<Longrightarrow> n \<le> 1074 \<Longrightarrow> representable (real_of_int m / 2 ^ n)"
  unfolding representable_def by blast

lemma grid:
  fixes j :: nat
  assumes "representable y" "2 ^ 53 / 2 ^ (Suc j) \<le> y" "j \<le> 1074"
  shows "\<exists>k::int. y = real_of_int k / 2 ^ j"
proof -
  from assms(1) obtain m n where m: "\<bar>m\<bar> < 2 ^ 53"
    and c: "n \<le> 1074 \<and> y = real_of_int m / 2 ^ n \<or> n \<le> 971 \<and> y = real_of_int m * 2 ^ n"
    unfolding representable_def by blast
  from c show ?thesis
  proof
    assume a: "n \<le> 1074 \<and> y = real_of_int m / 2 ^ n"
    show ?thesis
    proof (cases "n \<le> j")
      case True
      then have "(2::real) ^ j = 2 ^ n * 2 ^ (j - n)" by (simp flip: power_add)
      then have "y = real_of_int (m * 2 ^ (j - n)) / 2 ^ j" using a by simp
      then show ?thesis by blast
    next
      case False
      then have "Suc j \<le> n" by simp
      then have "(2::real) ^ Suc j \<le> 2 ^ n" by (rule power_increasing) simp
      have "m < 2 ^ 53" using m by linarith
      then have "real_of_int m < 2 ^ 53" by (simp only: of_int_less_numeral_power_cancel_iff)
      then have "y < 2 ^ 53 / 2 ^ n" using a by (simp add: divide_strict_right_mono)
      also have "\<dots> \<le> 2 ^ 53 / 2 ^ Suc j"
        using \<open>(2::real) ^ Suc j \<le> 2 ^ n\<close> by (intro divide_left_mono) simp_all
      finally show ?thesis using assms(2) by simp
    qed
  next
    assume a: "n \<le> 971 \<and> y = real_of_int m * 2 ^ n"
    then have "y = real_of_int (m * 2 ^ n * 2 ^ j) / 2 ^ j" by simp
    then show ?thesis by blast
  qed
qed

lemma below_grid:
  fixes j :: nat and N :: int
  assumes "representable y" "real_of_int (N - 1) / 2 ^ j < y" "j \<le> 1074"
    and "2 ^ 53 / 2 ^ (Suc j) \<le> real_of_int (N - 1) / 2 ^ j"
  shows "real_of_int N / 2 ^ j \<le> y"
proof -
  from assms(2,4) have "2 ^ 53 / 2 ^ (Suc j) \<le> y" by linarith
  from grid [OF assms(1) this assms(3)] obtain k :: int where y: "y = real_of_int k / 2 ^ j"
    by blast
  from assms(2) have "real_of_int (N - 1) < real_of_int k"
    unfolding y by (simp add: divide_less_cancel)
  then have "N \<le> k" by linarith
  then have "real_of_int N \<le> real_of_int k" by simp
  then show ?thesis unfolding y by (simp add: divide_le_cancel)
qed

lemma above_grid:
  fixes j :: nat and N :: int
  assumes "representable y" "y < real_of_int N / 2 ^ j" "j \<le> 1074"
    and "2 ^ 53 / 2 ^ (Suc j) \<le> real_of_int (N - 1) / 2 ^ j"
  shows "y \<le> real_of_int (N - 1) / 2 ^ j"
proof (cases "2 ^ 53 / 2 ^ (Suc j) \<le> y")
  case True
  from grid [OF assms(1) this assms(3)] obtain k :: int where y: "y = real_of_int k / 2 ^ j"
    by blast
  from assms(2) have "real_of_int k < real_of_int N"
    unfolding y by (simp add: divide_less_cancel)
  then have "k \<le> N - 1" by linarith
  then have "real_of_int k \<le> real_of_int (N - 1)" by (simp only: of_int_le_iff)
  then show ?thesis unfolding y by (simp add: divide_le_cancel)
next
  case False
  with assms(4) show ?thesis by linarith
qed

lemma nearest_le:
  assumes "nearest x y" "representable z" "x \<le> z"
  shows "y \<le> z"
proof -
  from assms(1,2) have "\<bar>x - y\<bar> \<le> \<bar>x - z\<bar>" unfolding nearest_def by blast
  with assms(3) show ?thesis by linarith
qed

lemma nearest_ge:
  assumes "nearest x y" "representable z" "z \<le> x"
  shows "z \<le> y"
proof -
  from assms(1,2) have "\<bar>x - y\<bar> \<le> \<bar>x - z\<bar>" unfolding nearest_def by blast
  with assms(3) show ?thesis by linarith
qed

lemma nearest_exact: "representable x \<Longrightarrow> nearest x x"
  unfolding nearest_def by simp

lemma nearest_range:
  assumes r: "representable r" "0 \<le> r" "r < 1"
    and p: "nearest (r * 9000) p" and q: "nearest (p + 1000) q"
  shows "1000 \<le> \<lfloor>q\<rfloor> \<and> \<lfloor>q\<rfloor> \<le> 9999"
proof -
  have "r < real_of_int (2 ^ 53) / 2 ^ 53" using r(3) by simp
  from above_grid [OF r(1) this] have r1: "r \<le> (2 ^ 53 - 1) / 2 ^ 53" by simp
  then have x: "r * 9000 \<le> 9000 - 9000 / 2 ^ 53" by simp
  have rep0: "representable 0" using representable_int [of 0] by simp
  have rep1000: "representable 1000" using representable_int [of 1000] by simp
  have repz0: "representable (real_of_int (9000 * 2 ^ 39 - 1) / 2 ^ 39)"
    by (rule representable_frac) simp_all
  have repz1: "representable (real_of_int (10000 * 2 ^ 39 - 1) / 2 ^ 39)"
    by (rule representable_frac) simp_all
  have p0: "0 \<le> p" using nearest_ge [OF p rep0] r(2) by simp
  have pz: "p \<le> real_of_int (9000 * 2 ^ 39 - 1) / 2 ^ 39"
  proof (rule ccontr)
    assume "\<not> p \<le> real_of_int (9000 * 2 ^ 39 - 1) / 2 ^ 39"
    then have "real_of_int (9000 * 2 ^ 39 - 1) / 2 ^ 39 < p" by simp
    from below_grid [OF _ this] p have "real_of_int (9000 * 2 ^ 39) / 2 ^ 39 \<le> p"
      unfolding nearest_def by simp
    then have p9: "9000 \<le> p" by simp
    from p repz0 have "\<bar>r * 9000 - p\<bar> \<le> \<bar>r * 9000 - real_of_int (9000 * 2 ^ 39 - 1) / 2 ^ 39\<bar>"
      unfolding nearest_def by blast
    with p9 x show False by simp
  qed
  have q0: "1000 \<le> q" using nearest_ge [OF q rep1000] p0 by simp
  have "p + 1000 \<le> real_of_int (10000 * 2 ^ 39 - 1) / 2 ^ 39" using pz by simp
  from nearest_le [OF q repz1 this] have "q < 10000" by simp
  with q0 show ?thesis by (simp add: le_floor_iff floor_le_iff)
qed



lemma round_even_nearest: "\<bar>y - of_int (round_even y)\<bar> \<le> \<bar>y - of_int k\<bar>"
proof -
  have f: "of_int \<lfloor>y\<rfloor> \<le> y" "y < of_int \<lfloor>y\<rfloor> + 1" by linarith+
  consider "k \<le> \<lfloor>y\<rfloor>" | "\<lfloor>y\<rfloor> + 1 \<le> k" by linarith
  then show ?thesis
  proof cases
    case 1
    then have "(of_int k :: real) \<le> of_int \<lfloor>y\<rfloor>" by simp
    with f show ?thesis unfolding round_even_def Let_def by (auto; linarith)
  next
    case 2
    then have "(of_int \<lfloor>y\<rfloor> :: real) + 1 \<le> of_int k" by linarith
    with f show ?thesis unfolding round_even_def Let_def by (auto; linarith)
  qed
qed

lemma round_even_mono: "of_int k \<le> y \<Longrightarrow> k \<le> round_even y"
  unfolding round_even_def Let_def by (auto simp: le_floor_iff; linarith)

lemma round_even_le: "y \<le> of_int k \<Longrightarrow> round_even y \<le> k"
proof -
  assume "y \<le> of_int k"
  then have "\<lfloor>y\<rfloor> \<le> k" by (simp add: floor_le_iff)
  moreover have "\<lfloor>y\<rfloor> = k \<Longrightarrow> y = of_int k" using \<open>y \<le> of_int k\<close> by linarith
  ultimately show ?thesis unfolding round_even_def Let_def by (auto; linarith)
qed

lemma frac_bits_le: "frac_bits n a \<le> n"
  by (induction n) auto

lemma frac_bits_below: "a < 2 ^ 53 \<Longrightarrow> a * 2 ^ frac_bits n a < 2 ^ 53"
  by (induction n) auto

lemma frac_bits_above: "frac_bits n a < n \<Longrightarrow> 2 ^ 53 \<le> a * 2 ^ Suc (frac_bits n a)"
proof (induction n)
  case 0
  then show ?case by simp
next
  case (Suc n)
  show ?case
  proof (cases "a * 2 ^ Suc n < 2 ^ 53")
    case True
    with Suc.prems show ?thesis by simp
  next
    case False
    then have e: "frac_bits (Suc n) a = frac_bits n a" by simp
    show ?thesis
    proof (cases "frac_bits n a < n")
      case True
      with Suc.IH e show ?thesis by simp
    next
      case False
      with frac_bits_le [of n a] have "frac_bits n a = n" by simp
      with \<open>\<not> a * 2 ^ Suc n < 2 ^ 53\<close> e show ?thesis by simp
    qed
  qed
qed

lemma scale_frac:
  fixes n J :: nat
  assumes "n \<le> J"
  shows "real_of_int m / 2 ^ n = real_of_int (m * 2 ^ (J - n)) / 2 ^ J"
proof -
  from assms have "(2::real) ^ J = 2 ^ n * 2 ^ (J - n)" by (simp flip: power_add)
  then show ?thesis by simp
qed

lemma scale_int:
  fixes n J :: nat
  shows "real_of_int m * 2 ^ n = real_of_int (m * 2 ^ n * 2 ^ J) / 2 ^ J"
  by simp

lemma grid_all:
  assumes "representable z"
  shows "\<exists>k::int. z = real_of_int k / 2 ^ 1074"
proof -
  from assms obtain m n where
    c: "n \<le> 1074 \<and> z = real_of_int m / 2 ^ n \<or> n \<le> 971 \<and> z = real_of_int m * 2 ^ n"
    unfolding representable_def by blast
  from c show ?thesis
  proof
    assume a: "n \<le> 1074 \<and> z = real_of_int m / 2 ^ n"
    then have "z = real_of_int (m * 2 ^ (1074 - n)) / 2 ^ 1074"
      using scale_frac [of n 1074 m] by blast
    then show ?thesis by blast
  next
    assume a: "n \<le> 971 \<and> z = real_of_int m * 2 ^ n"
    then have "z = real_of_int (m * 2 ^ n * 2 ^ 1074) / 2 ^ 1074"
      using scale_int [of m n 1074] by blast
    then show ?thesis by blast
  qed
qed

lemma binary64_nearest:
  assumes "0 \<le> x" "x < 2 ^ 53"
  shows "nearest x (binary64 x)"
proof -
  define j where "j = frac_bits 1074 x"
  define k where "k = round_even (x * 2 ^ j)"
  have y: "binary64 x = real_of_int k / 2 ^ j"
    using assms(1) by (simp add: binary64_def Let_def j_def k_def)
  have j: "j \<le> 1074" unfolding j_def by (rule frac_bits_le)
  have lt: "x * 2 ^ j < 2 ^ 53" unfolding j_def using assms(2) by (rule frac_bits_below)
  have k0: "0 \<le> k" unfolding k_def using assms(1) round_even_mono [of 0 "x * 2 ^ j"] by simp
  have "x * 2 ^ j \<le> real_of_int (2 ^ 53)" using lt by simp
  then have k1: "k \<le> 2 ^ 53" unfolding k_def by (rule round_even_le)
  have rep: "representable (real_of_int k / 2 ^ j)"
  proof (cases "k < 2 ^ 53")
    case True
    with k0 have "\<bar>k\<bar> < 2 ^ 53" by simp
    then show ?thesis using j by (rule representable_frac)
  next
    case False
    with k1 have k: "k = 2 ^ 53" by simp
    show ?thesis
    proof (cases j)
      case 0
      have "representable (real_of_int (2 ^ 52) * 2 ^ 1)"
        unfolding representable_def
        by (rule exI [of _ "2 ^ 52"], rule exI [of _ 1]) simp
      then show ?thesis by (simp add: k 0)
    next
      case (Suc i)
      have "representable (real_of_int (2 ^ 52) / 2 ^ i)"
        by (rule representable_frac) (use j Suc in simp_all)
      then show ?thesis by (simp add: k Suc)
    qed
  qed
  have near: "\<bar>x - real_of_int k / 2 ^ j\<bar> \<le> \<bar>x - z\<bar>" if z: "representable z" for z
  proof (rule ccontr)
    assume "\<not> \<bar>x - real_of_int k / 2 ^ j\<bar> \<le> \<bar>x - z\<bar>"
    then have c: "\<bar>x - z\<bar> < \<bar>x - real_of_int k / 2 ^ j\<bar>" by simp
    have sc: "\<bar>x - a / 2 ^ j\<bar> = \<bar>x * 2 ^ j - a\<bar> / 2 ^ j" for a :: real
    proof -
      have "x - a / 2 ^ j = (x * 2 ^ j - a) / 2 ^ j" by (simp add: field_simps)
      then show ?thesis by (simp only: abs_divide) simp
    qed
    have half: "\<bar>x * 2 ^ j - real_of_int k\<bar> \<le> 1 / 2"
    proof -
      have "\<bar>x * 2 ^ j - real_of_int k\<bar> \<le> \<bar>x * 2 ^ j - real_of_int \<lfloor>x * 2 ^ j\<rfloor>\<bar>"
        "\<bar>x * 2 ^ j - real_of_int k\<bar> \<le> \<bar>x * 2 ^ j - real_of_int (\<lfloor>x * 2 ^ j\<rfloor> + 1)\<bar>"
        unfolding k_def by (rule round_even_nearest)+
      then show ?thesis by linarith
    qed
    have "\<exists>k'::int. z = real_of_int k' / 2 ^ j"
    proof (cases "j = 1074")
      case True
      from grid_all [OF z] show ?thesis unfolding True .
    next
      case False
      with j have j1: "Suc j \<le> 1074" by simp
      from False j have "j < 1074" by simp
      then have "frac_bits 1074 x < 1074" by (simp add: j_def)
      from frac_bits_above [OF this] have ge: "2 ^ 53 \<le> x * 2 ^ Suc j" by (simp add: j_def)
      have "\<bar>x - real_of_int k / 2 ^ j\<bar> \<le> (1 / 2) / 2 ^ j"
        unfolding sc by (rule divide_right_mono [OF half]) simp
      with c have "\<bar>x - z\<bar> < 1 / 2 ^ Suc j" by simp
      then have "x - 1 / 2 ^ Suc j < z" by linarith
      moreover from ge have "2 ^ 53 / 2 ^ Suc j \<le> x" by (simp add: field_simps)
      ultimately have "real_of_int (2 ^ 53 - 1) / 2 ^ Suc j < z"
        by (simp add: diff_divide_distrib)
      from below_grid [OF z this j1] have "real_of_int (2 ^ 53) / 2 ^ Suc j \<le> z"
        by (simp add: field_simps)
      then have "2 ^ 53 / 2 ^ Suc j \<le> z" by simp
      from grid [OF z this j] show ?thesis .
    qed
    then obtain k' :: int where z': "z = real_of_int k' / 2 ^ j" by blast
    from c have "\<bar>x * 2 ^ j - real_of_int k'\<bar> < \<bar>x * 2 ^ j - real_of_int k\<bar>"
      unfolding z' sc by (simp add: divide_less_cancel)
    with round_even_nearest [of "x * 2 ^ j" k'] show False unfolding k_def by simp
  qed
  show ?thesis unfolding nearest_def y using rep near by blast
qed

lemma binary64_exact: "representable x \<Longrightarrow> 0 \<le> x \<Longrightarrow> x < 2 ^ 53 \<Longrightarrow> binary64 x = x"
proof -
  assume r: "representable x" and b: "0 \<le> x" "x < 2 ^ 53"
  from binary64_nearest [OF b] r have "\<bar>x - binary64 x\<bar> \<le> \<bar>x - x\<bar>"
    unfolding nearest_def by blast
  then show ?thesis by simp
qed

lemma rand_is_binary64:
  assumes "0 \<le> r" "r < 1"
  shows "rand_binary64 r (rand r)"
proof -
  have x: "0 \<le> r * 9000" "r * 9000 < 2 ^ 53" using assms by simp_all
  note p = binary64_nearest [OF x]
  have rep0: "representable 0" using representable_int [of 0] by simp
  have rep9: "representable 9000" using representable_int [of 9000] by simp
  have p0: "0 \<le> binary64 (r * 9000)" using nearest_ge [OF p rep0] x(1) by simp
  have "r * 9000 \<le> 9000" using assms by simp
  from nearest_le [OF p rep9 this] have p9: "binary64 (r * 9000) \<le> 9000" .
  have "0 \<le> binary64 (r * 9000) + 1000" "binary64 (r * 9000) + 1000 < 2 ^ 53"
    using p0 p9 by simp_all
  from binary64_nearest [OF this] p show ?thesis
    unfolding rand_binary64_def rand_def by blast
qed

lemma binary64_int: "0 \<le> m \<Longrightarrow> m < 2 ^ 53 \<Longrightarrow> binary64 (real_of_int m) = real_of_int m"
  by (rule binary64_exact [OF representable_int]) simp_all

lemma binary64_halves:
  "0 \<le> m \<Longrightarrow> m < 2 ^ 53 \<Longrightarrow> binary64 (real_of_int m / 2) = real_of_int m / 2"
  using binary64_exact [OF representable_frac [of m 1]] by simp

lemma rand_half: "rand (1 / 2) = 5500"
  unfolding rand_def using binary64_int [of 4500] binary64_int [of 5500] by simp

lemma rand_high: "rand (15 / 16) = 9437"
proof -
  have e1: "(15 / 16 * 9000 :: real) = real_of_int 16875 / 2" by simp
  have h1: "binary64 (real_of_int 16875 / 2) = real_of_int 16875 / 2"
    by (rule binary64_halves) simp_all
  have e2: "(real_of_int 16875 / 2 + 1000 :: real) = real_of_int 18875 / 2" by simp
  have h2: "binary64 (real_of_int 18875 / 2) = real_of_int 18875 / 2"
    by (rule binary64_halves) simp_all
  have e3: "\<lfloor>real_of_int 18875 / 2 :: real\<rfloor> = 9437" by simp
  show ?thesis unfolding rand_def e1 h1 e2 h2 e3 ..
qed

text \<open>
  The roundings matter. For the binary64 number next to \<open>8/9\<close> the product is rounded up to
  8000 and \<^verbatim>\<open>rand\<close> returns 9000, where exact arithmetic gives 8999; for
  \<open>6254999482459 / 2 ^ 51\<close> the sum is rounded up to 1025, where exact arithmetic gives 1024.
\<close>

lemma frac_bits_eq:
  assumes "j \<le> n" "a * 2 ^ j < 2 ^ 53" "2 ^ 53 \<le> a * 2 ^ Suc j"
  shows "frac_bits n a = j"
proof -
  have pos: "0 < a"
  proof (rule ccontr)
    assume "\<not> 0 < a"
    then have "a * 2 ^ Suc j \<le> 0" by (simp add: mult_le_0_iff)
    with assms(3) show False by simp
  qed
  have "a * 1 \<le> a * 2 ^ j" using pos by (intro mult_left_mono) simp_all
  with assms(2) have "a < 2 ^ 53" by simp
  then have below: "a * 2 ^ frac_bits n a < 2 ^ 53" by (rule frac_bits_below)
  have "\<not> j < frac_bits n a"
  proof
    assume "j < frac_bits n a"
    then have "Suc j \<le> frac_bits n a" by simp
    then have "(2::real) ^ Suc j \<le> 2 ^ frac_bits n a" by (rule power_increasing) simp
    then have "a * 2 ^ Suc j \<le> a * 2 ^ frac_bits n a" using pos by (simp add: mult_left_mono)
    with below assms(3) show False by simp
  qed
  moreover have "\<not> frac_bits n a < j"
  proof
    assume l: "frac_bits n a < j"
    with assms(1) have "frac_bits n a < n" by simp
    from frac_bits_above [OF this] have "2 ^ 53 \<le> a * 2 ^ Suc (frac_bits n a)" .
    moreover from l have "Suc (frac_bits n a) \<le> j" by simp
    then have "(2::real) ^ Suc (frac_bits n a) \<le> 2 ^ j" by (rule power_increasing) simp
    then have "a * 2 ^ Suc (frac_bits n a) \<le> a * 2 ^ j" using pos by (simp add: mult_left_mono)
    ultimately show False using assms(2) by simp
  qed
  ultimately show ?thesis by simp
qed

lemma binary64_at:
  assumes "j \<le> 1074" "0 \<le> x" "x * 2 ^ j < 2 ^ 53" "2 ^ 53 \<le> x * 2 ^ Suc j"
  shows "binary64 x = real_of_int (round_even (x * 2 ^ j)) / 2 ^ j"
  using frac_bits_eq [OF assms(1,3,4)] assms(2) by (simp add: binary64_def Let_def)

lemma rand_rounded_up:
  "rand (2001599834386887 / 2 ^ 51) = 9000
   \<and> \<lfloor>2001599834386887 / 2 ^ 51 * 9000 + 1000 :: real\<rfloor> = 8999"
proof -
  have p: "binary64 (2001599834386887 / 2 ^ 51 * 9000) = 8000"
    by (subst binary64_at [where j = 40]) (simp_all add: round_even_def Let_def)
  have q: "binary64 (8000 + 1000) = 9000"
    by (subst binary64_at [where j = 39]) (simp_all add: round_even_def Let_def)
  show ?thesis unfolding rand_def p q by simp
qed

lemma rand_rounded_up_low:
  "rand (6254999482459 / 2 ^ 51) = 1025
   \<and> \<lfloor>6254999482459 / 2 ^ 51 * 9000 + 1000 :: real\<rfloor> = 1024"
proof -
  have p: "binary64 (6254999482459 / 2 ^ 51 * 9000) = 7036874417766375 / 2 ^ 48"
    by (subst binary64_at [where j = 48]) (simp_all add: round_even_def Let_def)
  have q: "binary64 (7036874417766375 / 2 ^ 48 + 1000) = 1025"
    by (subst binary64_at [where j = 42]) (simp_all add: round_even_def Let_def)
  show ?thesis unfolding rand_def p q by simp
qed

text \<open>
  Whichever nearest numbers the roundings take, the source's expression stays in the range
  from 1000 to 9999 for every binary64 number \<open>r\<close> with \<open>0 \<le> r < 1\<close>.
\<close>

lemma rand_binary64_range:
  "representable r \<Longrightarrow> 0 \<le> r \<Longrightarrow> r < 1 \<Longrightarrow> rand_binary64 r v \<Longrightarrow> 1000 \<le> v \<and> v \<le> 9999"
  unfolding rand_binary64_def using nearest_range by blast

lemma rand_binary64_high: "rand_binary64 (15 / 16) 9437"
proof -
  have "representable (real_of_int 16875 / 2 ^ 1)" by (rule representable_frac) simp_all
  then have "nearest (15 / 16 * 9000) (16875 / 2)" using nearest_exact by simp
  moreover have "representable (real_of_int 18875 / 2 ^ 1)" by (rule representable_frac) simp_all
  then have "nearest (16875 / 2 + 1000) (18875 / 2)" using nearest_exact by simp
  moreover have "\<lfloor>18875 / 2 :: real\<rfloor> = 9437" by simp
  ultimately show ?thesis unfolding rand_binary64_def by (metis (no_types))
qed

section \<open>Symbolic execution of one millisecond\<close>

lemma flush_idle: "\<not> needs_render w \<Longrightarrow> flush w = w"
  by (simp add: flush.simps)

lemma flush_render:
  "needs_render w \<Longrightarrow>
   flush w = flush (App False
     (w\<lparr>needs_render := False, dirty := ((number w, seconds w) \<noteq> rendered w)\<rparr>))"
  by (subst flush.simps) simp

lemmas hook_defs = App_def useRandom_def useTimer_def commit_def rand_draw_def
  useTimer_effect_def useTimer_cleanup_def useRandom_effect_def useRandom_cleanup_def
  storeSeconds_def storeNumber_def setInterval_def clearInterval_def tick_def run_callback_def

lemma mount_mk: "mount g = mk g 1 0 1 10000 2 1000 3 [] (rand (g 0)) 10 False"
  by (simp add: mount_def initial_def hook_defs mk_def flush_idle Let_def)

lemma fire_tick:
  assumes "ir \<noteq> it"
  shows "fire \<lparr>iid = it, cb = TickCb, delay = 1000, due = dt\<rparr> (mk g d t ir dr it dt nid fs v s b)
       = mk g (Suc d) t ir dr it (dt + 1000) nid (fs @ [(t, TickCb)]) v (s - 1) True"
  using assms
  by (simp add: fire_def hook_defs mk_def flush_idle flush_render Let_def)

lemma fire_random_same:
  assumes "ir \<noteq> it" "rand (g d) = v"
  shows "fire \<lparr>iid = ir, cb = RandomCb, delay = 10000, due = dr\<rparr> (mk g d t ir dr it dt nid fs v s b)
       = mk g (if b then d + 2 else Suc d) t ir (dr + 10000) it dt nid (fs @ [(t, RandomCb)]) v s
           False"
  using assms
  by (simp add: fire_def hook_defs mk_def flush_idle flush_render Let_def)

lemma fire_random_new:
  assumes "ir \<noteq> it" "ir \<noteq> nid" "rand (g d) \<noteq> v"
  shows "fire \<lparr>iid = ir, cb = RandomCb, delay = 10000, due = dr\<rparr> (mk g d t ir dr it dt nid fs v s b)
       = mk g (d + 3) t ir (dr + 10000) nid (t + 1000) (Suc nid)
           (fs @ [(t, RandomCb)]) (rand (g d)) 10 (s \<noteq> 10)"
  using assms
  by (simp add: fire_def hook_defs mk_def flush_idle flush_render Let_def)

lemma mk_now:
  "(mk g d t ir dr it dt nid fs v s b)\<lparr>now := t'\<rparr> = mk g d t' ir dr it dt nid fs v s b"
  by (simp add: mk_def)

lemma timers_mk: "timers (mk g d t ir dr it dt nid fs v s b) =
   [\<lparr>iid = ir, cb = RandomCb, delay = 10000, due = dr\<rparr>, \<lparr>iid = it, cb = TickCb, delay = 1000, due = dt\<rparr>]"
  by (simp add: mk_def)

lemma now_mk: "now (mk g d t ir dr it dt nid fs v s b) = t"
  by (simp add: mk_def)

lemma step_idle:
  assumes "Suc t < dr" "Suc t < dt"
  shows "step (mk g d t ir dr it dt nid fs v s b) = mk g d (Suc t) ir dr it dt nid fs v s b"
  using assms by (simp add: step_def Let_def mk_now timers_mk now_mk)

lemma step_tick:
  assumes "Suc t < dr" "dt = Suc t" "ir \<noteq> it"
  shows "step (mk g d t ir dr it dt nid fs v s b)
       = mk g (Suc d) (Suc t) ir dr it (dt + 1000) nid (fs @ [(Suc t, TickCb)]) v (s - 1) True"
  using assms by (simp add: step_def Let_def mk_now timers_mk now_mk fire_tick)

lemma step_random_same:
  assumes "dr = Suc t" "Suc t < dt" "ir \<noteq> it" "rand (g d) = v"
  shows "step (mk g d t ir dr it dt nid fs v s b)
       = mk g (if b then d + 2 else Suc d) (Suc t) ir (dr + 10000) it dt nid
           (fs @ [(Suc t, RandomCb)]) v s False"
  using assms by (simp add: step_def Let_def mk_now timers_mk now_mk fire_random_same)

lemma step_both_same:
  assumes "dr = Suc t" "dt = Suc t" "ir \<noteq> it" "rand (g d) = v"
  shows "step (mk g d t ir dr it dt nid fs v s b)
       = mk g (if b then d + 3 else d + 2) (Suc t) ir (dr + 10000) it (dt + 1000) nid
           (fs @ [(Suc t, RandomCb), (Suc t, TickCb)]) v (s - 1) True"
  using assms
  by (simp add: step_def Let_def mk_now timers_mk now_mk fire_random_same fire_tick
      numeral_3_eq_3)

lemma step_random_new:
  assumes "dr = Suc t" "t < dt" "ir \<noteq> it" "ir \<noteq> nid" "it \<noteq> nid" "rand (g d) \<noteq> v"
  shows "step (mk g d t ir dr it dt nid fs v s b)
       = mk g (d + 3) (Suc t) ir (dr + 10000) nid (Suc t + 1000) (Suc nid)
           (fs @ [(Suc t, RandomCb)]) (rand (g d)) 10 (s \<noteq> 10)"
  using assms by (simp add: step_def Let_def mk_now timers_mk now_mk fire_random_new)

lemma mk_sel:
  "rng (mk g d t ir dr it dt nid fs v s b) = g"
  "draws (mk g d t ir dr it dt nid fs v s b) = d"
  "now (mk g d t ir dr it dt nid fs v s b) = t"
  "next_id (mk g d t ir dr it dt nid fs v s b) = nid"
  "fired (mk g d t ir dr it dt nid fs v s b) = fs"
  "mounted (mk g d t ir dr it dt nid fs v s b) = True"
  "needs_render (mk g d t ir dr it dt nid fs v s b) = False"
  "dirty (mk g d t ir dr it dt nid fs v s b) = b"
  "rendered (mk g d t ir dr it dt nid fs v s b) = (v, s)"
  "number (mk g d t ir dr it dt nid fs v s b) = v"
  "seconds (mk g d t ir dr it dt nid fs v s b) = s"
  "random_interval (mk g d t ir dr it dt nid fs v s b) = Some ir"
  "timer_interval (mk g d t ir dr it dt nid fs v s b) = Some it"
  "timer_deps (mk g d t ir dr it dt nid fs v s b) = Some v"
  by (simp_all add: mk_def)

lemma step_mk_cases:
  assumes "t < dr" "t < dt" "ir \<noteq> it" "ir \<noteq> nid" "it \<noteq> nid"
  obtains
    (idle) "Suc t < dr" "Suc t < dt"
      "step (mk g d t ir dr it dt nid fs v s b) = mk g d (Suc t) ir dr it dt nid fs v s b"
  | (tick) "Suc t < dr" "dt = Suc t"
      "step (mk g d t ir dr it dt nid fs v s b)
       = mk g (Suc d) (Suc t) ir dr it (dt + 1000) nid (fs @ [(Suc t, TickCb)]) v (s - 1) True"
  | (same) "dr = Suc t" "Suc t < dt" "rand (g d) = v"
      "step (mk g d t ir dr it dt nid fs v s b)
       = mk g (if b then d + 2 else Suc d) (Suc t) ir (dr + 10000) it dt nid
           (fs @ [(Suc t, RandomCb)]) v s False"
  | (both) "dr = Suc t" "dt = Suc t" "rand (g d) = v"
      "step (mk g d t ir dr it dt nid fs v s b)
       = mk g (if b then d + 3 else d + 2) (Suc t) ir (dr + 10000) it (dt + 1000) nid
           (fs @ [(Suc t, RandomCb), (Suc t, TickCb)]) v (s - 1) True"
  | (new) "dr = Suc t" "rand (g d) \<noteq> v"
      "step (mk g d t ir dr it dt nid fs v s b)
       = mk g (d + 3) (Suc t) ir (dr + 10000) nid (Suc t + 1000) (Suc nid)
           (fs @ [(Suc t, RandomCb)]) (rand (g d)) 10 (s \<noteq> 10)"
proof -
  consider "Suc t < dr" "Suc t < dt" | "Suc t < dr" "dt = Suc t"
    | "dr = Suc t" "Suc t < dt" "rand (g d) = v" | "dr = Suc t" "dt = Suc t" "rand (g d) = v"
    | "dr = Suc t" "rand (g d) \<noteq> v"
    using assms(1,2) by linarith
  then show thesis
  proof cases
    case 1 then show ?thesis using that(1) step_idle by blast
  next
    case 2 then show ?thesis using that(2) step_tick assms(3) by blast
  next
    case 3 then show ?thesis using that(3) step_random_same assms(3) by blast
  next
    case 4 then show ?thesis using that(4) step_both_same assms(3) by blast
  next
    case 5 then show ?thesis using that(5) step_random_new assms by blast
  qed
qed

lemma next_multiple_gt: "0 < k \<Longrightarrow> T < k * Suc (T div k)"
  for k :: nat
  using dividend_less_times_div [of k T] by (simp add: algebra_simps)

lemma div_Suc_dvd: "Suc T div k = (if k dvd Suc T then Suc (T div k) else T div k)"
  for k :: nat
  by (simp add: div_Suc dvd_eq_mod_eq_0)

lemma next_multiple_hit: "(k * Suc (T div k) = Suc T) = (k dvd Suc T)"
  for k :: nat
proof
  assume "k * Suc (T div k) = Suc T"
  then show "k dvd Suc T" by (metis dvd_triv_left)
next
  assume d: "k dvd Suc T"
  then have "Suc (T div k) = Suc T div k" by (simp add: div_Suc_dvd)
  with d show "k * Suc (T div k) = Suc T" by simp
qed

lemma dvd_10000_1000: "10000 dvd n \<Longrightarrow> 1000 dvd n"
  for n :: nat
  by (rule dvd_trans [of 1000 10000 n]) simp_all

section \<open>The schedule of a mounted component\<close>

lemma on_scheduleI:
  "w = mk g d T 1 (10000 * Suc (T div 10000)) it (1000 * Suc (T div 1000)) nid fs v s b
   \<Longrightarrow> 1 < it \<Longrightarrow> it < nid \<Longrightarrow> on_schedule g T w"
  unfolding on_schedule_def by blast

lemma on_schedule_mount: "on_schedule g 0 (mount g)"
  by (rule on_scheduleI [where d = 1 and it = 2 and nid = 3]) (simp_all add: mount_mk)

text \<open>
  One millisecond of a mounted component that was mounted at time 0: what becomes of the
  number, the countdown, the history of callbacks and the count of draws.
\<close>

lemma on_schedule_step:
  assumes "on_schedule g T w"
  shows "on_schedule g (Suc T) (step w)"
    and "number (step w) = (if 10000 dvd Suc T then rand (g (draws w)) else number w)"
    and "seconds (step w) =
           (if 10000 dvd Suc T \<and> rand (g (draws w)) \<noteq> number w then 10
            else if 1000 dvd Suc T then seconds w - 1 else seconds w)"
    and "fired (step w) =
           fired w @ (if 10000 dvd Suc T then [(Suc T, RandomCb)] else [])
             @ (if 1000 dvd Suc T \<and> \<not> (10000 dvd Suc T \<and> rand (g (draws w)) \<noteq> number w)
                then [(Suc T, TickCb)] else [])"
    and "draws (step w) =
           (if 10000 dvd Suc T
            then (if rand (g (draws w)) = number w \<and> \<not> dirty w then draws w + 2
                  else draws w + 3)
            else if 1000 dvd Suc T then Suc (draws w) else draws w)"
    and "dirty (step w) =
           (if 10000 dvd Suc T \<and> rand (g (draws w)) \<noteq> number w then seconds w \<noteq> 10
            else if 1000 dvd Suc T then True else dirty w)"
    and "rendered (step w) = (number (step w), seconds (step w))"
proof -
  from assms obtain d it nid fs v s b where
    w: "w = mk g d T 1 (10000 * Suc (T div 10000)) it (1000 * Suc (T div 1000)) nid fs v s b"
    and ids: "1 < it" "it < nid"
    unfolding on_schedule_def by blast
  have lt: "T < 10000 * Suc (T div 10000)" "T < 1000 * Suc (T div 1000)"
    by (simp_all add: next_multiple_gt)
  have ne: "1 \<noteq> it" "1 \<noteq> nid" "it \<noteq> nid" using ids by simp_all
  let ?goal = "\<lambda>w'. on_schedule g (Suc T) w'
    \<and> number w' = (if 10000 dvd Suc T then rand (g d) else v)
    \<and> seconds w' =
           (if 10000 dvd Suc T \<and> rand (g d) \<noteq> v then 10
            else if 1000 dvd Suc T then s - 1 else s)
    \<and> fired w' =
           fs @ (if 10000 dvd Suc T then [(Suc T, RandomCb)] else [])
             @ (if 1000 dvd Suc T \<and> \<not> (10000 dvd Suc T \<and> rand (g d) \<noteq> v)
                then [(Suc T, TickCb)] else [])
    \<and> draws w' =
           (if 10000 dvd Suc T
            then (if rand (g d) = v \<and> \<not> b then d + 2 else d + 3)
            else if 1000 dvd Suc T then Suc d else d)
    \<and> dirty w' =
           (if 10000 dvd Suc T \<and> rand (g d) \<noteq> v then s \<noteq> 10
            else if 1000 dvd Suc T then True else b)
    \<and> rendered w' = (number w', seconds w')"
  have "?goal (step (mk g d T 1 (10000 * Suc (T div 10000)) it (1000 * Suc (T div 1000)) nid fs v s b))"
    using lt ne
  proof (cases rule: step_mk_cases [where g = g and d = d and fs = fs and v = v and s = s and b = b])
    case idle
    from idle(1,2) have dv: "\<not> 1000 dvd Suc T" "\<not> 10000 dvd Suc T"
      by (simp_all flip: next_multiple_hit)
    have "on_schedule g (Suc T) (mk g d (Suc T) 1 (10000 * Suc (T div 10000)) it
            (1000 * Suc (T div 1000)) nid fs v s b)"
      by (rule on_scheduleI [where d = d and it = it and nid = nid and fs = fs and v = v
            and s = s and b = b])
        (use dv ids in \<open>simp_all add: div_Suc_dvd\<close>)
    then show ?thesis
      unfolding idle(3) using dv by (simp add: mk_sel)
  next
    case tick
    from tick(1,2) have dv: "1000 dvd Suc T" "\<not> 10000 dvd Suc T"
      by (simp_all flip: next_multiple_hit)
    have "on_schedule g (Suc T) (mk g (Suc d) (Suc T) 1 (10000 * Suc (T div 10000)) it
            (1000 * Suc (T div 1000) + 1000) nid (fs @ [(Suc T, TickCb)]) v (s - 1) True)"
      by (rule on_scheduleI [where d = "Suc d" and it = it and nid = nid
            and fs = "fs @ [(Suc T, TickCb)]" and v = v and s = "s - 1" and b = True])
        (use dv ids in \<open>simp_all add: div_Suc_dvd\<close>)
    then show ?thesis
      unfolding tick(3) using dv by (simp add: mk_sel)
  next
    case same
    from same(1,2) have "\<not> 1000 dvd Suc T" "10000 dvd Suc T"
      by (simp_all flip: next_multiple_hit)
    then show ?thesis using dvd_10000_1000 by blast
  next
    case both
    from both(1,2) have dv: "1000 dvd Suc T" "10000 dvd Suc T"
      by (simp_all flip: next_multiple_hit)
    have "on_schedule g (Suc T) (mk g (if b then d + 3 else d + 2) (Suc T) 1
            (10000 * Suc (T div 10000) + 10000) it (1000 * Suc (T div 1000) + 1000) nid
            (fs @ [(Suc T, RandomCb), (Suc T, TickCb)]) v (s - 1) True)"
      by (rule on_scheduleI [where d = "if b then d + 3 else d + 2" and it = it and nid = nid
            and fs = "fs @ [(Suc T, RandomCb), (Suc T, TickCb)]" and v = v and s = "s - 1"
            and b = True])
        (use dv ids in \<open>simp_all add: div_Suc_dvd\<close>)
    then show ?thesis
      unfolding both(4) using dv both(3) by (simp add: mk_sel)
  next
    case new
    from new(1) have dv10: "10000 dvd Suc T"
      by (simp_all flip: next_multiple_hit)
    then have dv: "1000 dvd Suc T" by (rule dvd_10000_1000)
    have dt': "Suc T + 1000 = 1000 * Suc (T div 1000) + 1000"
      using dv by (simp flip: next_multiple_hit)
    have "on_schedule g (Suc T) (mk g (d + 3) (Suc T) 1
            (10000 * Suc (T div 10000) + 10000) nid (1000 * Suc (T div 1000) + 1000) (Suc nid)
            (fs @ [(Suc T, RandomCb)]) (rand (g d)) 10 (s \<noteq> 10))"
      by (rule on_scheduleI [where d = "d + 3" and it = nid
            and nid = "Suc nid" and fs = "fs @ [(Suc T, RandomCb)]" and v = "rand (g d)" and s = 10
            and b = "s \<noteq> 10"])
        (use dv dv10 ids in \<open>simp_all add: div_Suc_dvd\<close>)
    then show ?thesis
      unfolding new(3) dt' using dv dv10 new(2) by (simp add: mk_sel)
  qed
  then have A: "on_schedule g (Suc T) (step w)
    \<and> number (step w) = (if 10000 dvd Suc T then rand (g (draws w)) else number w)
    \<and> seconds (step w) =
           (if 10000 dvd Suc T \<and> rand (g (draws w)) \<noteq> number w then 10
            else if 1000 dvd Suc T then seconds w - 1 else seconds w)
    \<and> fired (step w) =
           fired w @ (if 10000 dvd Suc T then [(Suc T, RandomCb)] else [])
             @ (if 1000 dvd Suc T \<and> \<not> (10000 dvd Suc T \<and> rand (g (draws w)) \<noteq> number w)
                then [(Suc T, TickCb)] else [])
    \<and> draws (step w) =
           (if 10000 dvd Suc T
            then (if rand (g (draws w)) = number w \<and> \<not> dirty w then draws w + 2
                  else draws w + 3)
            else if 1000 dvd Suc T then Suc (draws w) else draws w)
    \<and> dirty (step w) =
           (if 10000 dvd Suc T \<and> rand (g (draws w)) \<noteq> number w then seconds w \<noteq> 10
            else if 1000 dvd Suc T then True else dirty w)
    \<and> rendered (step w) = (number (step w), seconds (step w))"
    by (simp add: w mk_sel)
  from A show "on_schedule g (Suc T) (step w)" by blast
  from A show "number (step w) = (if 10000 dvd Suc T then rand (g (draws w)) else number w)" by blast
  from A show "seconds (step w) =
           (if 10000 dvd Suc T \<and> rand (g (draws w)) \<noteq> number w then 10
            else if 1000 dvd Suc T then seconds w - 1 else seconds w)" by blast
  from A show "fired (step w) =
           fired w @ (if 10000 dvd Suc T then [(Suc T, RandomCb)] else [])
             @ (if 1000 dvd Suc T \<and> \<not> (10000 dvd Suc T \<and> rand (g (draws w)) \<noteq> number w)
                then [(Suc T, TickCb)] else [])" by blast
  from A show "draws (step w) =
           (if 10000 dvd Suc T
            then (if rand (g (draws w)) = number w \<and> \<not> dirty w then draws w + 2
                  else draws w + 3)
            else if 1000 dvd Suc T then Suc (draws w) else draws w)" by blast
  from A show "dirty (step w) =
           (if 10000 dvd Suc T \<and> rand (g (draws w)) \<noteq> number w then seconds w \<noteq> 10
            else if 1000 dvd Suc T then True else dirty w)" by blast
  from A show "rendered (step w) = (number (step w), seconds (step w))" by blast
qed

lemma advance_0: "advance 0 w = w"
  by (simp add: advance_def)

lemma advance_Suc: "advance (Suc n) w = step (advance n w)"
  by (simp add: advance_def)

lemma advance_add: "advance (m + n) w = advance n (advance m w)"
  by (induction n) (simp_all add: advance_0 advance_Suc)

lemma on_schedule_advance: "on_schedule g T (advance T (mount g))"
  by (induction T) (simp_all add: advance_0 advance_Suc on_schedule_mount on_schedule_step(1))

lemma first_period:
  "T < 10000 \<Longrightarrow> number (advance T (mount g)) = rand (g 0)
     \<and> seconds (advance T (mount g)) = 10 - int (T div 1000)
     \<and> draws (advance T (mount g)) = Suc (T div 1000)"
proof (induction T)
  case 0
  show ?case by (simp add: advance_0 mount_mk mk_sel)
next
  case (Suc T)
  from Suc.prems have nd: "\<not> 10000 dvd Suc T" by (auto dest: dvd_imp_le)
  from Suc have IH: "number (advance T (mount g)) = rand (g 0)"
    "seconds (advance T (mount g)) = 10 - int (T div 1000)"
    "draws (advance T (mount g)) = Suc (T div 1000)" by simp_all
  note st = on_schedule_step [OF on_schedule_advance [of g T]]
  show ?case
    unfolding advance_Suc st(2,3,5) using nd IH by (simp add: div_Suc_dvd)
qed

lemma emission_index:
  fixes T :: nat
  assumes "10000 dvd Suc T"
  shows "T div 1000 = 10 * (T div 10000) + 9"
proof -
  from assms obtain q where q: "Suc T = 10000 * q" ..
  then have "0 < q" by (cases q) simp_all
  then obtain p where p: "q = Suc p" by (cases q) simp_all
  from q p have T: "T = 10000 * p + 9999" by simp
  have a: "T div 10000 = p" by (rule div_nat_eqI) (simp_all add: T)
  have "T div 1000 = 10 * p + 9" by (rule div_nat_eqI) (simp_all add: T)
  with a show ?thesis by simp
qed

text \<open>
  As long as the callback of \<^verbatim>\<open>useRandom\<close> draws the value that is held, which it does from
  the draws 10, 22, 34, ..., nothing resets the countdown; each emission then costs two
  draws beside the one of the tick's render: the callback's own and the one of the render
  that finds nothing changed.
\<close>

lemma steady_values:
  assumes "\<forall>n. rand (g (12 * n + 10)) = rand (g 0)"
  shows "number (advance T (mount g)) = rand (g 0)
     \<and> seconds (advance T (mount g)) = 10 - int (T div 1000)
     \<and> draws (advance T (mount g)) = 1 + T div 1000 + 2 * (T div 10000)
     \<and> dirty (advance T (mount g)) = (1000 \<le> T)"
proof (induction T)
  case 0
  show ?case by (simp add: advance_0 mount_mk mk_sel)
next
  case (Suc T)
  note st = on_schedule_step [OF on_schedule_advance [of g T]]
  from Suc have IH: "number (advance T (mount g)) = rand (g 0)"
    "seconds (advance T (mount g)) = 10 - int (T div 1000)"
    "draws (advance T (mount g)) = 1 + T div 1000 + 2 * (T div 10000)"
    "dirty (advance T (mount g)) = (1000 \<le> T)" by simp_all
  show ?case
  proof (cases "10000 dvd Suc T")
    case True
    then have k: "1000 dvd Suc T" by (rule dvd_10000_1000)
    from emission_index [OF True] have i: "T div 1000 = 10 * (T div 10000) + 9" .
    then have "Suc (T div 1000 + 2 * (T div 10000)) = 12 * (T div 10000) + 10" by simp
    moreover from assms have "rand (g (12 * (T div 10000) + 10)) = rand (g 0)" by blast
    ultimately have r: "rand (g (Suc (T div 1000 + 2 * (T div 10000)))) = rand (g 0)"
      by (simp only:)
    from i have big: "1000 \<le> T" by simp
    show ?thesis
      unfolding advance_Suc st(2,3,5,6) IH using True k big r by (simp add: div_Suc_dvd)
  next
    case False
    show ?thesis
    proof (cases "1000 dvd Suc T")
      case True
      then have "1000 \<le> Suc T" by (rule dvd_imp_le) simp
      with True False show ?thesis
        unfolding advance_Suc st(2,3,5,6) IH by (simp add: div_Suc_dvd)
    next
      case F: False
      then have "Suc T \<noteq> 1000" by auto
      then have "(1000 \<le> Suc T) = (1000 \<le> T)" by auto
      with F False show ?thesis
        unfolding advance_Suc st(2,3,5,6) IH by (simp add: div_Suc_dvd)
    qed
  qed
qed

lemma constant_oracle:
  assumes "\<forall>i. rand (g i) = rand (g 0)"
  shows "number (advance T (mount g)) = rand (g 0)
     \<and> seconds (advance T (mount g)) = 10 - int (T div 1000)"
  using steady_values [of g T] assms by simp

lemma only_multiple:
  fixes T j :: nat
  assumes "T < j" "j \<le> T + 1000" "1000 dvd j"
  shows "j = 1000 * Suc (T div 1000)"
proof -
  from assms(3) obtain q where j: "j = 1000 * q" ..
  from assms(1) have "T div 1000 < q"
    unfolding j by (simp add: less_mult_imp_div_less mult.commute)
  moreover from assms(2) have "(1000 * q) div 1000 \<le> (T + 1000) div 1000"
    unfolding j by (rule div_le_mono)
  then have "q \<le> Suc (T div 1000)" by simp
  ultimately have "q = Suc (T div 1000)" by simp
  then show ?thesis by (simp add: j)
qed

lemma quiet_stretch:
  assumes "\<forall>j. T < j \<and> j \<le> T + n \<longrightarrow> \<not> 1000 dvd j"
  shows "number (advance (T + n) (mount g)) = number (advance T (mount g))
     \<and> seconds (advance (T + n) (mount g)) = seconds (advance T (mount g))"
  using assms
proof (induction n)
  case 0
  show ?case by simp
next
  case (Suc n)
  from Suc.prems have q: "\<not> 1000 dvd Suc (T + n)" by simp
  then have q': "\<not> 10000 dvd Suc (T + n)" using dvd_10000_1000 by blast
  from Suc have IH: "number (advance (T + n) (mount g)) = number (advance T (mount g))"
    "seconds (advance (T + n) (mount g)) = seconds (advance T (mount g))" by simp_all
  note st = on_schedule_step [OF on_schedule_advance [of g "T + n"]]
  have e: "advance (T + Suc n) (mount g) = step (advance (T + n) (mount g))"
    by (simp add: advance_Suc)
  show ?case
    unfolding e st(2,3) using q q' IH by simp
qed

lemma quiet_between:
  assumes "T \<le> T'" "\<And>j. T < j \<Longrightarrow> j \<le> T' \<Longrightarrow> \<not> 1000 dvd j"
  shows "number (advance T' (mount g)) = number (advance T (mount g))"
    and "seconds (advance T' (mount g)) = seconds (advance T (mount g))"
proof -
  from assms have "\<forall>j. T < j \<and> j \<le> T + (T' - T) \<longrightarrow> \<not> 1000 dvd j" by simp
  from quiet_stretch [OF this, of g] assms(1)
  show "number (advance T' (mount g)) = number (advance T (mount g))"
    and "seconds (advance T' (mount g)) = seconds (advance T (mount g))" by simp_all
qed

lemma number_quiet:
  assumes "\<forall>j. T < j \<and> j \<le> T + n \<longrightarrow> \<not> 10000 dvd j"
  shows "number (advance (T + n) (mount g)) = number (advance T (mount g))"
  using assms
proof (induction n)
  case 0
  show ?case by simp
next
  case (Suc n)
  from Suc.prems have q': "\<not> 10000 dvd Suc (T + n)" by simp
  from Suc have IH: "number (advance (T + n) (mount g)) = number (advance T (mount g))"
    by simp
  note st = on_schedule_step [OF on_schedule_advance [of g "T + n"]]
  have e: "advance (T + Suc n) (mount g) = step (advance (T + n) (mount g))"
    by (simp add: advance_Suc)
  show ?case
    unfolding e st(2) using q' IH by simp
qed

lemma one_second:
  "seconds (advance (T + 1000) (mount g)) =
     (if number (advance (T + 1000) (mount g)) = number (advance T (mount g))
      then seconds (advance T (mount g)) - 1 else 10)"
proof -
  define P where "P = 1000 * (T div 1000) + 999"
  have M: "Suc P = 1000 * Suc (T div 1000)" by (simp add: P_def)
  have TP: "T \<le> P" using next_multiple_gt [of 1000 T] M by simp
  have PT: "Suc P \<le> T + 1000" unfolding M by simp
  have dv: "1000 dvd Suc P" unfolding M by simp
  have only: "j = Suc P" if "T < j" "j \<le> T + 1000" "1000 dvd j" for j
    using only_multiple [OF that] M by simp
  have "\<not> 1000 dvd j" if "T < j" "j \<le> P" for j
    using only [of j] that PT by auto
  from quiet_between [OF TP this, of g]
  have before: "number (advance P (mount g)) = number (advance T (mount g))"
    "seconds (advance P (mount g)) = seconds (advance T (mount g))" by simp_all
  have "\<not> 1000 dvd j" if "Suc P < j" "j \<le> T + 1000" for j
    using only [of j] that TP by auto
  from quiet_between [OF PT this, of g]
  have after: "number (advance (T + 1000) (mount g)) = number (advance (Suc P) (mount g))"
    "seconds (advance (T + 1000) (mount g)) = seconds (advance (Suc P) (mount g))" by simp_all
  note st = on_schedule_step [OF on_schedule_advance [of g P]]
  show ?thesis
    unfolding after before [symmetric] advance_Suc st(2,3) using dv by simp
qed

lemma steady_stretch:
  assumes "\<forall>m\<le>1000 * k. number (advance (T + m) (mount g)) = number (advance T (mount g))"
  shows "seconds (advance (T + 1000 * k) (mount g)) = seconds (advance T (mount g)) - int k"
  using assms
proof (induction k)
  case 0
  show ?case by simp
next
  case (Suc k)
  define T' where "T' = T + 1000 * k"
  have e: "T + 1000 * Suc k = T' + 1000" by (simp add: T'_def)
  from Suc.prems have a: "number (advance T' (mount g)) = number (advance T (mount g))"
    unfolding T'_def by simp
  from Suc.prems have "number (advance (T + 1000 * Suc k) (mount g)) = number (advance T (mount g))"
    by blast
  then have b: "number (advance (T' + 1000) (mount g)) = number (advance T (mount g))"
    unfolding e .
  from Suc have IH: "seconds (advance T' (mount g)) = seconds (advance T (mount g)) - int k"
    unfolding T'_def by simp
  show ?case
    unfolding e one_second [of T' g] a b IH by simp
qed

lemma emission_times_advance:
  "emission_times (advance T (mount g)) = map (\<lambda>k. 10000 * k) [1..<Suc (T div 10000)]"
proof (induction T)
  case 0
  show ?case by (simp add: advance_0 mount_mk mk_sel emission_times_def)
next
  case (Suc T)
  note st = on_schedule_step [OF on_schedule_advance [of g T]]
  show ?case
  proof (cases "10000 dvd Suc T")
    case True
    then have hit: "10000 * Suc (T div 10000) = Suc T" by (simp only: next_multiple_hit)
    from True have "emission_times (advance (Suc T) (mount g))
        = emission_times (advance T (mount g)) @ [Suc T]"
      unfolding advance_Suc emission_times_def st(4) by simp
    also have "\<dots> = map (\<lambda>k. 10000 * k) [1..<Suc (T div 10000)] @ [10000 * Suc (T div 10000)]"
      by (simp only: Suc hit)
    also have "\<dots> = map (\<lambda>k. 10000 * k) [1..<Suc (Suc (T div 10000))]"
      by simp
    also have "Suc (T div 10000) = Suc T div 10000"
      using True by (simp add: div_Suc_dvd)
    finally show ?thesis .
  next
    case False
    with Suc show ?thesis
      unfolding advance_Suc emission_times_def st(4) by (simp add: div_Suc_dvd)
  qed
qed

section \<open>Invariants of every run\<close>

lemma aliveI:
  assumes "w = mk g d t ir dr it dt nid fs v s b"
    and "ir \<noteq> it" "ir < nid" "it < nid" "t < dr" "t < dt" "s \<le> 10"
    and "sorted_wrt (\<lambda>a b. a + 1000 \<le> b) (map fst (filter (\<lambda>e. snd e = TickCb) fs))"
    and "\<forall>x\<in>set (map fst (filter (\<lambda>e. snd e = TickCb) fs)). x \<le> t \<and> x + 1000 \<le> dt"
  shows "alive w"
  unfolding alive_def tick_times_def
  by (intro exI conjI, rule assms(1)) (use assms in \<open>simp_all add: mk_sel\<close>)

lemma alive_mount: "alive (mount g)"
  by (rule aliveI [OF mount_mk]) simp_all

lemma alive_step:
  assumes "alive w"
  shows "alive (step w)"
proof -
  from assms obtain g d t ir dr it dt nid fs v s b where
    w: "w = mk g d t ir dr it dt nid fs v s b"
    and ids: "ir \<noteq> it" "ir < nid" "it < nid"
    and lt: "t < dr" "t < dt" and s: "s \<le> 10"
    and so: "sorted_wrt (\<lambda>a b. a + 1000 \<le> b) (map fst (filter (\<lambda>e. snd e = TickCb) fs))"
    and bd: "\<forall>x\<in>set (map fst (filter (\<lambda>e. snd e = TickCb) fs)). x \<le> t \<and> x + 1000 \<le> dt"
    unfolding alive_def tick_times_def by (auto simp: mk_sel)
  have ne: "ir \<noteq> nid" "it \<noteq> nid" using ids by simp_all
  have "alive (step (mk g d t ir dr it dt nid fs v s b))"
    using lt ids(1) ne
  proof (cases rule: step_mk_cases [where g = g and d = d and fs = fs and v = v and s = s and b = b])
    case idle
    show ?thesis
      by (rule aliveI [OF idle(3)]) (use ids idle s so bd in \<open>auto\<close>)
  next
    case tick
    show ?thesis
      by (rule aliveI [OF tick(3)]) (use ids tick s so bd in \<open>auto simp: sorted_wrt_append\<close>)
  next
    case same
    show ?thesis
      by (rule aliveI [OF same(4)]) (use ids same s so bd in \<open>auto\<close>)
  next
    case both
    show ?thesis
      by (rule aliveI [OF both(4)]) (use ids both s so bd in \<open>auto simp: sorted_wrt_append\<close>)
  next
    case new
    show ?thesis
      by (rule aliveI [OF new(3)]) (use ids new s so bd lt in \<open>auto\<close>)
  qed
  then show ?thesis by (simp add: w)
qed

lemma dead_step: "dead w \<Longrightarrow> step w = w\<lparr>now := Suc (now w)\<rparr>"
  by (simp add: dead_def step_def Let_def)

lemma dead_unmount: "dead w \<Longrightarrow> unmount w = w\<lparr>mounted := False\<rparr>"
  by (simp add: dead_def unmount_def useRandom_cleanup_def useTimer_cleanup_def)

lemma unmount_mk:
  "ir \<noteq> it \<Longrightarrow> unmount (mk g d t ir dr it dt nid fs v s b) =
     (mk g d t ir dr it dt nid fs v s b)
       \<lparr>timers := [], mounted := False, random_interval := None, timer_interval := None\<rparr>"
  by (simp add: unmount_def useRandom_cleanup_def useTimer_cleanup_def clearInterval_def mk_def)

lemma alive_unmount:
  assumes "alive w"
  shows "dead (unmount w)" and "fired (unmount w) = fired w"
    and "number (unmount w) = number w" and "seconds (unmount w) = seconds w"
    and "timers (unmount w) = []"
proof -
  from assms obtain g d t ir dr it dt nid fs v s b where
    w: "w = mk g d t ir dr it dt nid fs v s b" and ids: "ir \<noteq> it" and s: "s \<le> 10"
    and so: "sorted_wrt (\<lambda>a b. a + 1000 \<le> b) (tick_times w)"
    unfolding alive_def by blast
  note u = unmount_mk [OF ids, of g d t dr dt nid fs v s b, folded w]
  show "dead (unmount w)"
    unfolding u dead_def tick_times_def using so s by (simp add: tick_times_def w mk_sel)
  show "fired (unmount w) = fired w" "number (unmount w) = number w"
    "seconds (unmount w) = seconds w" "timers (unmount w) = []"
    unfolding u by simp_all
qed

lemma alive_advance: "alive w \<Longrightarrow> alive (advance n w)"
  by (induction n) (simp_all add: advance_0 advance_Suc alive_step)

lemma dead_now: "dead (w\<lparr>now := t\<rparr>) = dead w"
  by (simp add: dead_def tick_times_def)

lemma dead_mounted: "dead (w\<lparr>mounted := b\<rparr>) = dead w"
  by (simp add: dead_def tick_times_def)

lemma dead_advance: "dead w \<Longrightarrow> advance n w = w\<lparr>now := now w + n\<rparr>"
proof (induction n)
  case 0
  show ?case by (simp add: advance_0)
next
  case (Suc n)
  then have "dead (advance n w)" by (simp add: dead_now)
  from dead_step [OF this] Suc show ?case by (simp add: advance_Suc)
qed

lemma settled_event: "alive w \<or> dead w \<Longrightarrow> alive (apply_event ev w) \<or> dead (apply_event ev w)"
proof (cases ev)
  case (Elapse n)
  assume "alive w \<or> dead w"
  then show ?thesis
    unfolding Elapse by (auto simp: alive_advance dead_advance dead_now)
next
  case Unmount
  assume "alive w \<or> dead w"
  then show ?thesis
    unfolding Unmount by (auto simp: alive_unmount(1) dead_unmount dead_mounted)
qed

lemma run_Nil: "run [] w = w"
  by (simp add: run_def)

lemma run_Cons: "run (ev # evs) w = run evs (apply_event ev w)"
  by (simp add: run_def)

lemma settled_run: "alive w \<or> dead w \<Longrightarrow> alive (run evs w) \<or> dead (run evs w)"
proof (induction evs arbitrary: w)
  case Nil
  then show ?case by (simp add: run_Nil)
next
  case (Cons ev evs)
  from Cons.prems have "alive (apply_event ev w) \<or> dead (apply_event ev w)"
    by (rule settled_event)
  then show ?case unfolding run_Cons by (rule Cons.IH)
qed

lemma settled_mount_run: "alive (run evs (mount g)) \<or> dead (run evs (mount g))"
  by (rule settled_run) (simp add: alive_mount)

lemma dead_event:
  assumes "dead w"
  shows "dead (apply_event ev w)" and "fired (apply_event ev w) = fired w"
    and "number (apply_event ev w) = number w" and "seconds (apply_event ev w) = seconds w"
    and "timers (apply_event ev w) = timers w"
  using assms
  by (cases ev; simp add: dead_advance dead_unmount dead_now dead_mounted)+

lemma dead_run:
  "dead w \<Longrightarrow> dead (run evs w) \<and> fired (run evs w) = fired w \<and> number (run evs w) = number w
     \<and> seconds (run evs w) = seconds w \<and> timers (run evs w) = timers w"
proof (induction evs arbitrary: w)
  case Nil
  then show ?case by (simp add: run_Nil)
next
  case (Cons ev evs)
  from Cons.IH [OF dead_event(1) [OF Cons.prems, of ev]] dead_event(2-5) [OF Cons.prems, of ev]
  show ?case by (simp add: run_Cons)
qed

lemma settled_seconds: "alive w \<or> dead w \<Longrightarrow> seconds w \<le> 10"
  by (auto simp: alive_def dead_def mk_sel)

lemma settled_tick_intervals:
  "alive w \<or> dead w \<Longrightarrow> length (filter (\<lambda>t. cb t = TickCb) (timers w)) \<le> 1"
  by (auto simp: alive_def dead_def timers_mk)

lemma settled_tick_times:
  "alive w \<or> dead w \<Longrightarrow> sorted_wrt (\<lambda>a b. a + 1000 \<le> b) (tick_times w)"
  by (auto simp: alive_def dead_def)

lemma settled_unmount:
  assumes "alive w \<or> dead w"
  shows "dead (unmount w)" and "timers (unmount w) = []" and "fired (unmount w) = fired w"
    and "number (unmount w) = number w" and "seconds (unmount w) = seconds w"
proof -
  have "dead (unmount w) \<and> timers (unmount w) = [] \<and> fired (unmount w) = fired w
      \<and> number (unmount w) = number w \<and> seconds (unmount w) = seconds w"
    using assms
  proof
    assume "alive w"
    then show ?thesis by (simp add: alive_unmount)
  next
    assume d: "dead w"
    then have "timers w = []" by (simp add: dead_def)
    with d show ?thesis by (simp add: dead_unmount dead_mounted)
  qed
  then show "dead (unmount w)" and "timers (unmount w) = []" and "fired (unmount w) = fired w"
    and "number (unmount w) = number w" and "seconds (unmount w) = seconds w"
    by simp_all
qed

lemma settled_cleanups:
  assumes "alive w \<or> dead w"
  shows "filter (\<lambda>t. cb t = RandomCb) (timers (useRandom_cleanup w)) = []"
    and "filter (\<lambda>t. cb t = TickCb) (timers (useTimer_cleanup w)) = []"
  using assms
  by (auto simp: alive_def dead_def mk_def useRandom_cleanup_def useTimer_cleanup_def
      clearInterval_def)

lemma settled_restart:
  assumes "alive w \<or> dead w"
  shows "length (filter (\<lambda>t. cb t = TickCb) (timers (useTimer_effect (useTimer_cleanup w)))) = 1"
  using assms
  by (auto simp: alive_def dead_def mk_def useTimer_effect_def useTimer_cleanup_def
      clearInterval_def setInterval_def storeSeconds_def Let_def)

lemma number_since_emission:
  "number (advance T (mount g)) = number (advance (10000 * (T div 10000)) (mount g))"
proof -
  have "\<forall>j. 10000 * (T div 10000) < j \<and> j \<le> 10000 * (T div 10000) + T mod 10000
      \<longrightarrow> \<not> 10000 dvd j"
  proof (intro allI impI notI)
    fix j :: nat
    assume b: "10000 * (T div 10000) < j \<and> j \<le> 10000 * (T div 10000) + T mod 10000"
      and "10000 dvd j"
    then obtain q where j: "j = 10000 * q" by blast
    from b have "T div 10000 < q" unfolding j by simp
    then have "10000 * Suc (T div 10000) \<le> j" unfolding j by simp
    moreover have "T mod 10000 < 10000" by simp
    ultimately show False using b by simp
  qed
  from number_quiet [OF this, of g] show ?thesis by simp
qed

lemma advance_10000: "advance 10000 w = step (advance 9999 w)"
  using advance_Suc [of 9999 w] by simp

lemma same_draws_constant: "\<forall>i. rand (same_draws i) = rand (same_draws 0)"
  by (simp add: same_draws_def)

lemma rand_same_draws: "rand (same_draws i) = 5500"
  by (simp add: same_draws_def rand_half)

text \<open>
  The count of draws follows the renders: with every draw \<open>1/2\<close> there are 13 draws by
  10000 ms and 22 by 19999 ms, so that the callback at 20000 ms takes draw 22. A draw of
  \<open>15/16\<close> in place 21 goes to the render of a tick and changes nothing.
\<close>

lemma same_draws_steady:
  "number (advance T (mount same_draws)) = 5500
     \<and> seconds (advance T (mount same_draws)) = 10 - int (T div 1000)
     \<and> draws (advance T (mount same_draws)) = 1 + T div 1000 + 2 * (T div 10000)
     \<and> dirty (advance T (mount same_draws)) = (1000 \<le> T)"
proof -
  have "\<forall>n. rand (same_draws (12 * n + 10)) = rand (same_draws 0)"
    by (simp add: rand_same_draws)
  from steady_values [OF this, of T] show ?thesis
    by (simp only: rand_same_draws)
qed

lemma same_draws_count:
  "draws (advance 10000 (mount same_draws)) = 13 \<and> draws (advance 19999 (mount same_draws)) = 22"
  using same_draws_steady [of 10000] same_draws_steady [of 19999] by simp

lemma late_change_unseen:
  "draws (advance 19999 (mount late_change)) = 22
   \<and> number (advance 20000 (mount late_change)) = 5500
   \<and> seconds (advance 20000 (mount late_change)) = - 10"
proof -
  have "\<forall>n. rand (late_change (12 * n + 10)) = rand (late_change 0)"
  proof
    fix n :: nat
    have "12 * n + 10 \<noteq> 21" by presburger
    then show "rand (late_change (12 * n + 10)) = rand (late_change 0)"
      by (simp add: late_change_def)
  qed
  moreover have "rand (late_change 0) = 5500"
    by (simp add: late_change_def rand_half)
  ultimately show ?thesis
    using steady_values [of late_change 19999] steady_values [of late_change 20000] by simp
qed

section \<open>The claims\<close>

text \<open>
  C1. The specification has \<open>seconds\<close> set back to 10 whenever the generator produces a
  value, even one equal to the value it holds, and the hook is to return the seconds to
  the next random number. The code misses the reset when the two values are equal: with
  every draw \<open>1/2\<close> the callback of \<^verbatim>\<open>useRandom\<close> runs at 10000 ms and stores 5500 over 5500,
  \<^verbatim>\<open>App\<close> is called once more and finds nothing changed, the effect of \<^verbatim>\<open>useTimer\<close> does
  not run, and the tick of the same instant takes \<open>seconds\<close> from 1 to 0.
\<close>

theorem equal_value_no_reset:
  "fired (step (advance 9999 (mount same_draws)))
     = fired (advance 9999 (mount same_draws)) @ [(10000, RandomCb), (10000, TickCb)]
   \<and> number (advance 9999 (mount same_draws)) = 5500
   \<and> number (step (advance 9999 (mount same_draws))) = 5500
   \<and> seconds (advance 9999 (mount same_draws)) = 1
   \<and> seconds (step (advance 9999 (mount same_draws))) = 0
   \<and> seconds (step (advance 9999 (mount same_draws))) \<noteq> 10
   \<and> draws (advance 9999 (mount same_draws)) = 10
   \<and> draws (step (advance 9999 (mount same_draws))) = 13"
proof -
  note st = on_schedule_step [OF on_schedule_advance [of same_draws 9999]]
  from same_draws_steady [of 9999]
  have w: "number (advance 9999 (mount same_draws)) = 5500"
    "seconds (advance 9999 (mount same_draws)) = 1"
    "draws (advance 9999 (mount same_draws)) = 10"
    "dirty (advance 9999 (mount same_draws)) = True"
    by simp_all
  show ?thesis
    unfolding st(2,3,4,5) w rand_same_draws by simp
qed

text \<open>
  C2. The specification, like the comment above \<^verbatim>\<open>rand\<close> (a random number between 1000
  and 9000), has every value held in the range from 1000 (included) to 9000 (excluded).
  The formula does not keep to it: with \<^verbatim>\<open>Math.random()\<close> returning \<open>15/16\<close>, \<^verbatim>\<open>rand\<close>
  returns 9437 (also in binary64, see \<open>rand_binary64_high\<close>), and a component mounted
  with that draw holds 9437.
\<close>

theorem rand_beyond_9000:
  "rand (15 / 16) = 9437 \<and> \<not> rand (15 / 16) < 9000 \<and> number (mount high_draws) = 9437"
  by (simp add: rand_high mount_mk mk_sel high_draws_def)

text \<open>
  C3. Every value \<open>v\<close> that \<^verbatim>\<open>rand\<close> produces from an outcome \<open>r\<close> of \<^verbatim>\<open>Math.random()\<close> with
  \<open>0 \<le> r < 1\<close> is an integer with \<open>1000 \<le> v \<le> 9999\<close>: so it is for the formula in exact
  arithmetic, so it is for every binary64 number \<open>r\<close> whichever nearest numbers the
  roundings take, and \<open>rand r\<close> is one of these results.
\<close>

theorem rand_range:
  "0 \<le> r \<Longrightarrow> r < 1 \<Longrightarrow>
     (1000 :: int) \<le> \<lfloor>r * 9000 + 1000\<rfloor> \<and> \<lfloor>r * 9000 + 1000\<rfloor> \<le> (9999 :: int)
     \<and> (representable r \<and> rand_binary64 r v \<longrightarrow> 1000 \<le> v \<and> v \<le> 9999)
     \<and> rand_binary64 r (rand r)
     \<and> (representable r \<longrightarrow> 1000 \<le> rand r \<and> rand r \<le> 9999)"
  using rand_binary64_range [of r v] rand_binary64_range [of r "rand r"] rand_is_binary64 [of r]
  by (simp add: le_floor_iff floor_le_iff)

theorem rand_range_witness:
  "(0::real) \<le> 15 / 16 \<and> (15 / 16 :: real) < 1
   \<and> representable (15 / 16) \<and> rand_binary64 (15 / 16) 9437
   \<and> rand (15 / 16) = 9437
   \<and> 1000 \<le> rand (15 / 16) \<and> rand (15 / 16) \<le> 9999"
proof -
  have "representable (real_of_int 15 / 2 ^ 4)" by (rule representable_frac) simp_all
  then have "representable (15 / 16)" by simp
  with rand_range [of "15 / 16" 9437] rand_binary64_high rand_high show ?thesis by simp
qed

text \<open>
  C4. The specification's scenario: from time 0 with value \<open>X0\<close> and countdown 10, the
  countdown is 9 after one second, at 10 seconds a value \<open>X1\<close> is emitted and the countdown
  is 10, and one second later the countdown is 9. The code misses it when \<open>X1 = X0\<close>:
  with every draw \<open>1/2\<close> the value emitted at 10000 ms is 5500 again, the countdown is 0 at
  10000 ms, and at 11000 ms \<^verbatim>\<open>App\<close> shows the number 5500 with \<open>-1\<close> seconds to the next one.
\<close>

theorem equal_values_break_scenario:
  "number (mount same_draws) = 5500
   \<and> seconds (mount same_draws) = 10
   \<and> seconds (advance 1000 (mount same_draws)) = 9
   \<and> emission_times (advance 10000 (mount same_draws)) = [10000]
   \<and> number (advance 10000 (mount same_draws)) = 5500
   \<and> seconds (advance 10000 (mount same_draws)) = 0
   \<and> seconds (advance 10000 (mount same_draws)) \<noteq> 10
   \<and> seconds (advance 1000 (advance 10000 (mount same_draws))) = - 1
   \<and> rendered (advance 1000 (advance 10000 (mount same_draws))) = (5500, - 1)"
proof -
  note c = constant_oracle [OF same_draws_constant]
  have r: "rand (same_draws 0) = 5500"
    by (rule rand_same_draws)
  have a: "advance 1000 (advance 10000 (mount same_draws)) = advance 11000 (mount same_draws)"
    using advance_add [of 10000 1000 "mount same_draws"] by simp
  have e: "emission_times (advance 10000 (mount same_draws)) = [10000]"
    unfolding emission_times_advance by (simp add: upt_rec)
  note st = on_schedule_step(7) [OF on_schedule_advance [of same_draws 10999]]
  have "rendered (advance 11000 (mount same_draws))
      = (number (advance 11000 (mount same_draws)), seconds (advance 11000 (mount same_draws)))"
    using st advance_Suc [of 10999 "mount same_draws"] by simp
  with c [of 0] c [of 1000] c [of 10000] c [of 11000] show ?thesis
    unfolding a e r by (simp add: advance_0)
qed

text \<open>
  C5. In every state that a run of the component reaches (time passing, unmounting), at
  most one interval of \<^verbatim>\<open>useTimer\<close> is active, and the decrement events of the whole run
  are at least one period of 1000 ms apart: no two schedules ever overlap. When the effect
  of \<^verbatim>\<open>useTimer\<close> runs again from such a state, its cleanup first leaves no interval of
  \<^verbatim>\<open>useTimer\<close>, and the effect then sets the only one.
\<close>

theorem single_tick_schedule:
  "length (filter (\<lambda>t. cb t = TickCb) (timers (run evs (mount g)))) \<le> 1
   \<and> sorted_wrt (\<lambda>a b. a + 1000 \<le> b) (tick_times (run evs (mount g)))
   \<and> filter (\<lambda>t. cb t = TickCb) (timers (useTimer_cleanup (run evs (mount g)))) = []
   \<and> length (filter (\<lambda>t. cb t = TickCb)
         (timers (useTimer_effect (useTimer_cleanup (run evs (mount g)))))) = 1"
  using settled_tick_intervals [OF settled_mount_run [of evs g]]
    settled_tick_times [OF settled_mount_run [of evs g]]
    settled_cleanups(2) [OF settled_mount_run [of evs g]]
    settled_restart [OF settled_mount_run [of evs g]]
  by simp

text \<open>
  C6. The countdown is not clamped at zero: as long as the value held does not change,
  \<open>seconds\<close> is \<open>10 - k\<close> after \<open>k\<close> seconds, for every \<open>k\<close>, also beyond 10.
\<close>

theorem countdown_goes_negative:
  assumes "\<forall>m\<le>1000 * k. number (advance m (mount g)) = number (mount g)"
  shows "seconds (advance (1000 * k) (mount g)) = 10 - int k"
proof -
  have "seconds (mount g) = 10" by (simp add: mount_mk mk_sel)
  with steady_stretch [of k 0 g] assms show ?thesis
    by (simp add: advance_0)
qed

theorem countdown_goes_negative_witness:
  "(\<forall>m. number (advance m (mount same_draws)) = number (mount same_draws))
   \<and> seconds (advance 12000 (mount same_draws)) = - 2"
proof -
  note c = constant_oracle [OF same_draws_constant]
  have n: "number (advance m (mount same_draws)) = number (mount same_draws)" for m
    using c [of m] c [of 0] by (simp add: advance_0)
  then have "\<forall>m\<le>1000 * 12. number (advance m (mount same_draws)) = number (mount same_draws)"
    by simp
  from countdown_goes_negative [OF this] n show ?thesis by simp
qed

text \<open>
  C7. The generator holds \<open>\<lfloor>r * 9000 + 1000\<rfloor>\<close>, computed in binary64 from the first
  outcome \<open>r\<close> of \<^verbatim>\<open>Math.random()\<close>, as soon as it is mounted, after a single render. Its
  callback runs at the instants 10000, 20000, ... ms, once each and at no other time; the
  value held after each run is the same formula of the draw made in that run, which at
  10000 ms is draw 10 (after the draws of the first render and of the renders of nine
  ticks); between two runs the value held does not change.
\<close>

theorem generator_schedule:
  "now (mount g) = 0
   \<and> draws (mount g) = 1
   \<and> number (mount g) = \<lfloor>binary64 (binary64 (g 0 * 9000) + 1000)\<rfloor>
   \<and> emission_times (advance T (mount g)) = map (\<lambda>k. 10000 * k) [1..<Suc (T div 10000)]
   \<and> number (advance (10000 * Suc n) (mount g))
       = \<lfloor>binary64 (binary64 (g (draws (advance (10000 * n + 9999) (mount g))) * 9000) + 1000)\<rfloor>
   \<and> number (advance 10000 (mount g)) = \<lfloor>binary64 (binary64 (g 10 * 9000) + 1000)\<rfloor>
   \<and> number (advance T (mount g)) = number (advance (10000 * (T div 10000)) (mount g))"
proof -
  note st = on_schedule_step [OF on_schedule_advance [of g "10000 * n + 9999"]]
  have e: "10000 * Suc n = Suc (10000 * n + 9999)" by simp
  have a: "number (advance (10000 * Suc n) (mount g))
       = rand (g (draws (advance (10000 * n + 9999) (mount g))))"
    unfolding e advance_Suc st(2) by simp
  note st0 = on_schedule_step [OF on_schedule_advance [of g 9999]]
  have "draws (advance 9999 (mount g)) = 10"
    using first_period [of 9999 g] by simp
  then have b: "number (advance 10000 (mount g)) = rand (g 10)"
    unfolding advance_10000 st0(2) by simp
  show ?thesis
    using a b emission_times_advance [of T g] number_since_emission [of T g]
    by (simp add: mount_mk mk_sel rand_def)
qed

text \<open>
  C8. \<open>seconds\<close> is initialised to 10: the first render of \<^verbatim>\<open>useTimer\<close> returns 10 whatever
  was there before, and mounting takes that one render only (the effect's
  \<^verbatim>\<open>storeSeconds(10)\<close> finds 10). Over any stretch of \<open>k\<close> seconds of a mounted component
  during which the value held does not change, \<open>seconds\<close> goes down by exactly \<open>k\<close>.
\<close>

theorem countdown_decrements:
  "fst (useTimer True v w) = 10 \<and> seconds (snd (useTimer True v w)) = 10
   \<and> draws (mount g) = 1 \<and> rendered (mount g) = (number (mount g), 10)
   \<and> seconds (mount g) = 10
   \<and> ((\<forall>m\<le>1000 * k. number (advance m (advance T (mount g))) = number (advance T (mount g)))
      \<longrightarrow> seconds (advance (1000 * k) (advance T (mount g)))
            = seconds (advance T (mount g)) - int k)"
  using steady_stretch [of k T g]
  by (simp add: useTimer_def mount_mk mk_sel advance_add)

theorem countdown_decrements_witness:
  "(\<forall>m. number (advance m (advance 2500 (mount same_draws)))
          = number (advance 2500 (mount same_draws)))
   \<and> seconds (advance 2500 (mount same_draws)) = 8
   \<and> seconds (advance 4000 (advance 2500 (mount same_draws))) = 4"
proof -
  note c = constant_oracle [OF same_draws_constant]
  have n: "number (advance m (advance 2500 (mount same_draws)))
      = number (advance 2500 (mount same_draws))" for m
    using c [of "2500 + m"] c [of 2500] by (simp add: advance_add)
  then have "\<forall>m\<le>1000 * 4. number (advance m (advance 2500 (mount same_draws)))
      = number (advance 2500 (mount same_draws))"
    by simp
  with countdown_decrements [of 0 "initial same_draws" same_draws 4 2500]
  have "seconds (advance (1000 * 4) (advance 2500 (mount same_draws)))
      = seconds (advance 2500 (mount same_draws)) - int 4"
    by blast
  with n c [of 2500] show ?thesis by simp
qed

text \<open>
  C9. The cleanup of \<^verbatim>\<open>useRandom\<close> leaves no interval of \<^verbatim>\<open>useRandom\<close> active, the cleanup
  of \<^verbatim>\<open>useTimer\<close> none of \<^verbatim>\<open>useTimer\<close>. After the component is unmounted (both cleanups),
  no interval is left and, whatever happens next, no callback runs any more: the history
  of callbacks, the value and the countdown stay as they were.
\<close>

theorem teardown_stops_callbacks:
  "filter (\<lambda>t. cb t = RandomCb) (timers (useRandom_cleanup (run evs (mount g)))) = []
   \<and> filter (\<lambda>t. cb t = TickCb) (timers (useTimer_cleanup (run evs (mount g)))) = []
   \<and> timers (unmount (run evs (mount g))) = []
   \<and> timers (run evs' (unmount (run evs (mount g)))) = []
   \<and> fired (run evs' (unmount (run evs (mount g)))) = fired (run evs (mount g))
   \<and> number (run evs' (unmount (run evs (mount g)))) = number (run evs (mount g))
   \<and> seconds (run evs' (unmount (run evs (mount g)))) = seconds (run evs (mount g))"
proof -
  note s = settled_mount_run [of evs g]
  note u = settled_unmount [OF s]
  from dead_run [OF u(1), of evs'] u(2-5) settled_cleanups [OF s]
  show ?thesis by simp
qed

text \<open>
  C10. In every state that a run of the component reaches, \<open>seconds\<close> is at most 10.
\<close>

theorem countdown_at_most_ten: "seconds (run evs (mount g)) \<le> 10"
  by (rule settled_seconds [OF settled_mount_run])

end
